theory Spec2Isabelle
  imports Complex_Main "HOL-Library.AList"
begin

section \<open>Strings and numbers of the host language\<close>

text \<open>
  A JavaScript string is modelled as a \<^typ>\<open>string\<close>, one \<^typ>\<open>char\<close> per code unit
  (code units above 255 are outside the model). The helpers below are the string
  methods the audited modules call.
\<close>

fun startsWith :: "string \<Rightarrow> string \<Rightarrow> bool" where
  "startsWith s [] = True"
| "startsWith [] (c # cs) = False"
| "startsWith (x # xs) (c # cs) = (x = c \<and> startsWith xs cs)"

definition endsWith :: "string \<Rightarrow> string \<Rightarrow> bool" where
  "endsWith s suffix = startsWith (rev s) (rev suffix)"

fun includes_str :: "string \<Rightarrow> string \<Rightarrow> bool" where
  "includes_str [] sub = (sub = [])"
| "includes_str (x # xs) sub = (startsWith (x # xs) sub \<or> includes_str xs sub)"

text \<open>Decimal rendering of an integer inside a template literal.\<close>

fun nat_to_string :: "nat \<Rightarrow> string" where
  "nat_to_string n =
     (if n < 10 then [''0123456789'' ! n]
      else nat_to_string (n div 10) @ [''0123456789'' ! (n mod 10)])"

declare nat_to_string.simps [simp del]

definition int_to_string :: "int \<Rightarrow> string" where
  "int_to_string i = (if i < 0 then CHR ''-'' # nat_to_string (nat (- i)) else nat_to_string (nat i))"

text \<open>
  \<open>a || b\<close> on values that are a number or \<open>undefined\<close>: the left operand when it is
  truthy (a number other than 0), the right operand otherwise. \<open>x || 0\<close> ends a chain.
\<close>

definition js_or :: "int option \<Rightarrow> int option \<Rightarrow> int option" where
  "js_or a b = (case a of None \<Rightarrow> b | Some n \<Rightarrow> if n \<noteq> 0 then Some n else b)"

definition or_zero :: "int option \<Rightarrow> int" where
  "or_zero a = (case a of None \<Rightarrow> 0 | Some n \<Rightarrow> n)"

section \<open>Data model\<close>

datatype json =
    JNull
  | JBool bool
  | JNum rat
  | JStr string
  | JArr "json list"
  | JObj "(string \<times> json) list"

record image =
  src :: string
  alt :: "string option"
  has_alt :: bool

text \<open>
  A Page Record as it is read back from \<open>site_snapshot.json\<close>: a property that the
  writer left out is \<open>None\<close>.
\<close>

record page =
  url :: string
  status_code :: int
  title :: "string option"
  meta_description :: "string option"
  h1 :: "string list option"
  h2 :: "string list option"
  h3 :: "string list option"
  structured_data :: "json list option"
  word_count :: "int option"
  images :: "image list option"
  internal_links :: "int option"
  external_links :: "int option"
  error :: "string option"

record health_checks =
  health_score :: "int option"

record citation_readiness =
  citation_score :: "int option"

record content_coverage =
  coverage_score :: "int option"

record compilation_summary =
  total_issues_found :: "int option"

record snapshot =
  pages_crawled :: "int option"
  pages :: "page list option"
  health_checks :: "health_checks option"
  citation_readiness :: "citation_readiness option"
  content_coverage :: "content_coverage option"
  compilation_summary :: "compilation_summary option"
  crawled_at :: "string option"
  baseline_created_at :: "string option"

section \<open>Monitoring engine (lib/monitoring.js)\<close>

record change =
  type :: string
  baseline :: int
  current :: int
  delta :: int

record score_delta =
  sd_baseline :: int
  sd_current :: int
  sd_delta :: int

record summary =
  has_changes :: bool
  pages_added :: int
  pages_removed :: int
  scores :: "(string \<times> score_delta) list"

record diff =
  timestamp :: string
  changes :: "change list"
  summary :: summary

record alert =
  level :: string
  message :: string

record thresholds =
  new_issues_critical :: int
  score_drop_above :: int
  pages_removed_above :: int

definition metrics :: "string list" where
  "metrics = [''health_score'', ''citation_score'', ''content_coverage_score'']"

text \<open>
  The score expression of the metric loop,
  \<open>s.health_checks?.health_score || s.citation_readiness?.citation_score ||
  s.content_coverage?.coverage_score || 0\<close>. It does not mention the loop variable.
\<close>

definition fallback_score :: "snapshot \<Rightarrow> int" where
  "fallback_score s =
     or_zero (js_or (js_or (Option.bind (health_checks s) health_score)
                           (Option.bind (citation_readiness s) citation_score))
                    (Option.bind (content_coverage s) coverage_score))"

text \<open>One iteration of \<open>for (const metric of metrics)\<close>.\<close>

definition compare_metric :: "snapshot \<Rightarrow> snapshot \<Rightarrow> diff \<Rightarrow> string \<Rightarrow> diff" where
  "compare_metric currentSnapshot baselineSnapshot d metric =
     (let currentScore = fallback_score currentSnapshot;
          baselineScore = fallback_score baselineSnapshot
      in if currentScore \<noteq> baselineScore
         then d\<lparr>changes := changes d @
                    [\<lparr>type = metric, baseline = baselineScore, current = currentScore,
                      delta = currentScore - baselineScore\<rparr>],
                summary := (summary d)\<lparr>has_changes := True,
                    scores := AList.update metric
                      \<lparr>sd_baseline = baselineScore, sd_current = currentScore,
                       sd_delta = currentScore - baselineScore\<rparr> (scores (summary d))\<rparr>\<rparr>
         else d)"

text \<open>
  \<open>s.pages?.reduce((sum, p) => sum + (p.structured_data?.length || 0), 0) || 0\<close>
\<close>

definition structured_data_total :: "snapshot \<Rightarrow> int" where
  "structured_data_total s =
     (case pages s of
        None \<Rightarrow> 0
      | Some ps \<Rightarrow>
          foldl (\<lambda>sum p. sum + (case structured_data p of None \<Rightarrow> 0 | Some xs \<Rightarrow> int (length xs)))
                0 ps)"

text \<open>
  \<open>compareWithBaseline\<close>. The clock reading \<open>new Date().toISOString()\<close> is the first
  argument. The four comparisons run in the order of the source, each on the diff
  built so far.
\<close>

definition compareWithBaseline :: "string \<Rightarrow> snapshot \<Rightarrow> snapshot \<Rightarrow> diff" where
  "compareWithBaseline now currentSnapshot baselineSnapshot =
     (let d0 = \<lparr>timestamp = now, changes = [],
                summary = \<lparr>has_changes = False, pages_added = 0, pages_removed = 0, scores = []\<rparr>\<rparr>;
          currentPageCount = or_zero (pages_crawled currentSnapshot);
          baselinePageCount = or_zero (pages_crawled baselineSnapshot);
          d1 = (if currentPageCount \<noteq> baselinePageCount
                then d0\<lparr>changes := changes d0 @
                           [\<lparr>type = ''page_count'', baseline = baselinePageCount,
                             current = currentPageCount,
                             delta = currentPageCount - baselinePageCount\<rparr>],
                        summary := (summary d0)\<lparr>has_changes := True,
                           pages_added := max 0 (currentPageCount - baselinePageCount),
                           pages_removed := max 0 (baselinePageCount - currentPageCount)\<rparr>\<rparr>
                else d0);
          d2 = foldl (compare_metric currentSnapshot baselineSnapshot) d1 metrics;
          currentIssues = or_zero (Option.bind (compilation_summary currentSnapshot) total_issues_found);
          baselineIssues = or_zero (Option.bind (compilation_summary baselineSnapshot) total_issues_found);
          d3 = (if currentIssues \<noteq> baselineIssues
                then d2\<lparr>changes := changes d2 @
                           [\<lparr>type = ''issues_count'', baseline = baselineIssues,
                             current = currentIssues, delta = currentIssues - baselineIssues\<rparr>],
                        summary := (summary d2)\<lparr>has_changes := True\<rparr>\<rparr>
                else d2);
          currentStructuredData = structured_data_total currentSnapshot;
          baselineStructuredData = structured_data_total baselineSnapshot
      in if currentStructuredData \<noteq> baselineStructuredData
         then d3\<lparr>changes := changes d3 @
                    [\<lparr>type = ''structured_data_count'', baseline = baselineStructuredData,
                      current = currentStructuredData,
                      delta = currentStructuredData - baselineStructuredData\<rparr>],
                 summary := (summary d3)\<lparr>has_changes := True\<rparr>\<rparr>
         else d3)"

text \<open>
  \<open>checkThresholds\<close>: one pass over \<open>diff.changes\<close>; each change is put to the three
  tests in turn, and every test that passes pushes its alert.
\<close>

definition check_change :: "thresholds \<Rightarrow> alert list \<Rightarrow> change \<Rightarrow> alert list" where
  "check_change th alerts c =
     (let a1 = (if type c = ''issues_count'' \<and> delta c > new_issues_critical th
                then alerts @ [\<lparr>level = ''critical'',
                                 message = int_to_string (delta c) @ '' new issues detected''\<rparr>]
                else alerts);
          a2 = (if includes_str (type c) ''score'' \<and> delta c < - score_drop_above th
                then a1 @ [\<lparr>level = ''warning'',
                             message = type c @ '' dropped by '' @ int_to_string \<bar>delta c\<bar> @ '' points''\<rparr>]
                else a1)
      in if type c = ''page_count'' \<and> delta c < - pages_removed_above th
         then a2 @ [\<lparr>level = ''warning'',
                      message = int_to_string \<bar>delta c\<bar> @ '' pages removed''\<rparr>]
         else a2)"

definition checkThresholds :: "diff \<Rightarrow> thresholds \<Rightarrow> alert list" where
  "checkThresholds d th = foldl (check_change th) [] (changes d)"

text \<open>
  The two files the engine works on: \<open>config/monitoring.json\<close> (absent, or a
  configuration with its history) and the snapshot files, looked up by the path that
  the configuration records. What \<open>JSON.stringify\<close> writes, \<open>JSON.parse\<close> reads back
  unchanged: the values here are finite numbers, strings, booleans, arrays and objects.
\<close>

record monitoring =
  enabled :: bool
  baseline_snapshot :: "string option"
  alert_thresholds :: thresholds

record history_entry =
  checked_at :: string
  diff :: diff
  alerts :: "alert list"

record config =
  monitoring :: monitoring
  history :: "history_entry list option"

record store =
  config_file :: "config option"
  snapshot_files :: "string \<Rightarrow> snapshot option"

definition loadMonitoringConfig :: "store \<Rightarrow> config option" where
  "loadMonitoringConfig st = config_file st"

definition loadBaseline :: "store \<Rightarrow> snapshot option" where
  "loadBaseline st =
     (case loadMonitoringConfig st of
        None \<Rightarrow> None
      | Some cfg \<Rightarrow>
          (case baseline_snapshot (monitoring cfg) of
             None \<Rightarrow> None
           | Some path \<Rightarrow> if path = [] then None else snapshot_files st path))"

datatype check_result =
    Disabled
  | No_baseline string
  | Checked string diff "alert list" "string option"

text \<open>\<open>history.slice(-30)\<close>: the last 30 elements, all of them when there are fewer.\<close>

definition slice_last :: "nat \<Rightarrow> 'a list \<Rightarrow> 'a list" where
  "slice_last n xs = drop (length xs - n) xs"

text \<open>
  \<open>runMonitoringCheck\<close>, with the clock reading as first argument; it returns its
  result and the files as it leaves them.
\<close>

definition runMonitoringCheck :: "string \<Rightarrow> snapshot \<Rightarrow> store \<Rightarrow> check_result \<times> store" where
  "runMonitoringCheck now currentSnapshot st =
     (case loadMonitoringConfig st of
        None \<Rightarrow> (Disabled, st)
      | Some cfg \<Rightarrow>
          if \<not> enabled (monitoring cfg) then (Disabled, st)
          else
            (case loadBaseline st of
               None \<Rightarrow> (No_baseline ''No baseline snapshot found. Run audit first.'', st)
             | Some base \<Rightarrow>
                 (let d = compareWithBaseline now currentSnapshot base;
                      al = checkThresholds d (alert_thresholds (monitoring cfg));
                      h0 = (case history cfg of None \<Rightarrow> [] | Some h \<Rightarrow> h);
                      h1 = h0 @ [\<lparr>checked_at = timestamp d, diff = d, alerts = al\<rparr>];
                      h2 = (if length h1 > 30 then slice_last 30 h1 else h1);
                      cfg' = cfg\<lparr>history := Some h2\<rparr>
                  in (Checked (if length al > 0 then ''alerts'' else ''ok'') d al
                        (case baseline_created_at base of
                           Some t \<Rightarrow> if t \<noteq> [] then Some t else crawled_at base
                         | None \<Rightarrow> crawled_at base),
                      st\<lparr>config_file := Some cfg'\<rparr>))))"

text \<open>A sequence of checks, each given its clock reading and its current snapshot.\<close>

fun run_checks :: "(string \<times> snapshot) list \<Rightarrow> store \<Rightarrow> store" where
  "run_checks [] st = st"
| "run_checks ((now, cur) # rest) st = run_checks rest (snd (runMonitoringCheck now cur st))"

text \<open>The history entry that a check of \<open>cur\<close> at time \<open>now\<close> records.\<close>

definition entry_of :: "snapshot \<Rightarrow> thresholds \<Rightarrow> string \<times> snapshot \<Rightarrow> history_entry" where
  "entry_of base th call =
     (let d = compareWithBaseline (fst call) (snd call) base
      in \<lparr>checked_at = timestamp d, diff = d, alerts = checkThresholds d th\<rparr>)"

text \<open>
  The threshold rules as the specification words them: three gates, each looking at
  one change on its own.
\<close>

definition issues_gate :: "thresholds \<Rightarrow> change \<Rightarrow> alert list" where
  "issues_gate th c =
     (if type c = ''issues_count'' \<and> new_issues_critical th < delta c
      then [\<lparr>level = ''critical'', message = int_to_string (delta c) @ '' new issues detected''\<rparr>]
      else [])"

definition score_gate :: "thresholds \<Rightarrow> change \<Rightarrow> alert list" where
  "score_gate th c =
     (if includes_str (type c) ''score'' \<and> delta c < - score_drop_above th
      then [\<lparr>level = ''warning'',
             message = type c @ '' dropped by '' @ int_to_string \<bar>delta c\<bar> @ '' points''\<rparr>]
      else [])"

definition pages_gate :: "thresholds \<Rightarrow> change \<Rightarrow> alert list" where
  "pages_gate th c =
     (if type c = ''page_count'' \<and> delta c < - pages_removed_above th
      then [\<lparr>level = ''warning'', message = int_to_string \<bar>delta c\<bar> @ '' pages removed''\<rparr>]
      else [])"


text \<open>A store, thresholds and 35 calls to try the history bound on.\<close>

definition example_thresholds :: thresholds where
  "example_thresholds = \<lparr>new_issues_critical = 0, score_drop_above = 10, pages_removed_above = 1\<rparr>"

definition example_snapshot :: "int \<Rightarrow> snapshot" where
  "example_snapshot n =
     \<lparr>pages_crawled = Some n, pages = None, health_checks = None, citation_readiness = None,
      content_coverage = None, compilation_summary = None, crawled_at = None,
      baseline_created_at = None\<rparr>"

definition example_config :: config where
  "example_config =
     \<lparr>monitoring = \<lparr>enabled = True, baseline_snapshot = Some ''data/baseline_snapshot.json'',
                     alert_thresholds = example_thresholds\<rparr>,
      history = None\<rparr>"

definition example_store :: store where
  "example_store =
     \<lparr>config_file = Some example_config,
      snapshot_files = (\<lambda>p. if p = ''data/baseline_snapshot.json'' then Some (example_snapshot 3) else None)\<rparr>"

definition example_calls :: "(string \<times> snapshot) list" where
  "example_calls = map (\<lambda>i. (nat_to_string i, example_snapshot (int i))) [0..<35]"

section \<open>More string methods\<close>

text \<open>
  \<open>toLowerCase\<close> on code units below 256: the ASCII capitals and the capitals of
  Latin-1 (U+00C0 to U+00DE, without the multiplication sign U+00D7) move up by 32.
\<close>

definition lower_char :: "char \<Rightarrow> char" where
  "lower_char c =
     (let n = (of_char c :: nat)
      in if (65 \<le> n \<and> n \<le> 90) \<or> (192 \<le> n \<and> n \<le> 222 \<and> n \<noteq> 215)
         then char_of (n + 32) else c)"

definition toLowerCase :: "string \<Rightarrow> string" where
  "toLowerCase s = map lower_char s"

text \<open>
  White space as \<open>trim\<close> and the class \<open>\s\<close> read it, below 256: tab, line feed,
  vertical tab, form feed, carriage return, space and the no-break space.
\<close>

definition is_space :: "char \<Rightarrow> bool" where
  "is_space c = ((of_char c :: nat) \<in> {9, 10, 11, 12, 13, 32, 160})"

definition trim :: "string \<Rightarrow> string" where
  "trim s = rev (dropWhile is_space (rev (dropWhile is_space s)))"

section \<open>Content coverage analyzer\<close>

record issue =
  issue_type :: string
  severity :: string
  issue_page :: string
  issue_message :: string

record coverage_summary =
  total_content_pages :: nat
  pages_with_meta_description :: nat
  pages_with_h1 :: nat
  pages_with_title :: nat
  total_issues :: nat
  high_severity :: nat
  medium_severity :: nat
  summary_coverage_score :: int

record coverage_result =
  issues :: "issue list"
  result_summary :: coverage_summary
  contentPages :: "page list"

text \<open>The filter "actual content pages (not assets)" of \<open>analyzeContentCoverage\<close>.\<close>

definition is_content_page :: "page \<Rightarrow> bool" where
  "is_content_page p =
     (let u = toLowerCase (url p)
      in \<not> endsWith u ''.css'' \<and> \<not> endsWith u ''.js'' \<and> \<not> endsWith u ''.ico'' \<and>
         \<not> endsWith u ''.png'' \<and> \<not> endsWith u ''.jpg'')"

text \<open>\<open>!s || s.trim() === ''\<close>\<close>

definition blank_str :: "string option \<Rightarrow> bool" where
  "blank_str s = (case s of None \<Rightarrow> True | Some t \<Rightarrow> t = [] \<or> trim t = [])"

text \<open>The five checks, each the body of one \<open>contentPages.forEach\<close>.\<close>

definition check_meta_description :: "page \<Rightarrow> issue list" where
  "check_meta_description p =
     (if blank_str (meta_description p)
      then [\<lparr>issue_type = ''missing_meta_description'', severity = ''high'', issue_page = url p,
             issue_message = ''Page missing meta description''\<rparr>]
      else (case meta_description p of
              None \<Rightarrow> []
            | Some m \<Rightarrow>
                if length m < 50
                then [\<lparr>issue_type = ''short_meta_description'', severity = ''medium'',
                       issue_page = url p,
                       issue_message = ''Meta description too short ('' @ nat_to_string (length m) @
                                       '' chars). Recommended: 150-160''\<rparr>]
                else []))"

definition check_h1 :: "page \<Rightarrow> issue list" where
  "check_h1 p =
     (case h1 p of
        None \<Rightarrow> [\<lparr>issue_type = ''missing_h1'', severity = ''high'', issue_page = url p,
                  issue_message = ''Page missing H1 heading''\<rparr>]
      | Some hs \<Rightarrow>
          if length hs = 0
          then [\<lparr>issue_type = ''missing_h1'', severity = ''high'', issue_page = url p,
                 issue_message = ''Page missing H1 heading''\<rparr>]
          else if length hs > 1
          then [\<lparr>issue_type = ''multiple_h1'', severity = ''medium'', issue_page = url p,
                 issue_message = ''Multiple H1 headings found ('' @ nat_to_string (length hs) @
                                 ''). Should have exactly one.''\<rparr>]
          else [])"

definition check_title :: "page \<Rightarrow> issue list" where
  "check_title p =
     (if blank_str (title p)
      then [\<lparr>issue_type = ''missing_title'', severity = ''high'', issue_page = url p,
             issue_message = ''Page missing title tag''\<rparr>]
      else [])"

text \<open>\<open>page.word_count < 50\<close> is false when the count is absent.\<close>

definition check_word_count :: "page \<Rightarrow> issue list" where
  "check_word_count p =
     (case word_count p of
        None \<Rightarrow> []
      | Some w \<Rightarrow>
          if w < 50
          then [\<lparr>issue_type = ''thin_content'', severity = ''medium'', issue_page = url p,
                 issue_message = ''Very low word count ('' @ int_to_string w @
                                 ''). Pages should have substantial content.''\<rparr>]
          else [])"

definition check_images :: "page \<Rightarrow> issue list" where
  "check_images p =
     (case images p of
        None \<Rightarrow> []
      | Some imgs \<Rightarrow>
          if length imgs > 0
          then (let imagesWithoutAlt = filter (\<lambda>img. blank_str (alt img)) imgs
                in if length imagesWithoutAlt > 0
                   then [\<lparr>issue_type = ''images_missing_alt'', severity = ''medium'',
                          issue_page = url p,
                          issue_message = nat_to_string (length imagesWithoutAlt) @
                                          '' images missing alt text''\<rparr>]
                   else [])
          else [])"

definition calculateCoverageScore :: "page list \<Rightarrow> issue list \<Rightarrow> int" where
  "calculateCoverageScore ps iss =
     (if length ps = 0 then 0
      else (let score0 = (100 :: int);
                score1 = score0 - int (length (filter (\<lambda>i. severity i = ''high'') iss)) * 15;
                score2 = score1 - int (length (filter (\<lambda>i. severity i = ''medium'') iss)) * 5
            in max 0 (min 100 score2)))"

definition analyzeContentCoverage :: "snapshot \<Rightarrow> coverage_result" where
  "analyzeContentCoverage siteSnapshot =
     (let ps = (case pages siteSnapshot of None \<Rightarrow> [] | Some xs \<Rightarrow> xs);
          cps = filter is_content_page ps;
          iss = concat (map check_meta_description cps) @
                concat (map check_h1 cps) @
                concat (map check_title cps) @
                concat (map check_word_count cps) @
                concat (map check_images cps)
      in \<lparr>issues = iss,
          result_summary =
            \<lparr>total_content_pages = length cps,
             pages_with_meta_description = length (filter (\<lambda>p. \<not> blank_str (meta_description p)) cps),
             pages_with_h1 =
               length (filter (\<lambda>p. case h1 p of None \<Rightarrow> False | Some hs \<Rightarrow> length hs > 0) cps),
             pages_with_title = length (filter (\<lambda>p. \<not> blank_str (title p)) cps),
             total_issues = length iss,
             high_severity = length (filter (\<lambda>i. severity i = ''high'') iss),
             medium_severity = length (filter (\<lambda>i. severity i = ''medium'') iss),
             summary_coverage_score = calculateCoverageScore cps iss\<rparr>,
          contentPages = cps\<rparr>)"

text \<open>A snapshot that holds the given pages and nothing else.\<close>

definition snapshot_of :: "page list \<Rightarrow> snapshot" where
  "snapshot_of ps =
     \<lparr>pages_crawled = Some (int (length ps)), pages = Some ps, health_checks = None,
      citation_readiness = None, content_coverage = None, compilation_summary = None,
      crawled_at = None, baseline_created_at = None\<rparr>"

text \<open>
  A page with status 200, 30 words, the given URL and title, and no description,
  heading or image.
\<close>

definition bare_page :: "string \<Rightarrow> string \<Rightarrow> page" where
  "bare_page u t =
     \<lparr>url = u, status_code = 200, title = Some t, meta_description = None, h1 = None,
      h2 = None, h3 = None, structured_data = None, word_count = Some 30, images = None,
      internal_links = Some 0, external_links = Some 0, error = None\<rparr>"

section \<open>Key-page detector\<close>

record key_page =
  kp_url :: string
  kp_title :: string
  kp_type :: string
  kp_word_count :: "int option"
  kp_internal_links :: "int option"
  key_headings :: "string list"
  importance_score :: int

text \<open>The filter of \<open>detectKeyPages\<close>: no asset, nothing under \<open>/static/\<close>, status 200.\<close>

definition is_key_candidate :: "page \<Rightarrow> bool" where
  "is_key_candidate p =
     (let u = toLowerCase (url p)
      in \<not> endsWith u ''.css'' \<and> \<not> endsWith u ''.js'' \<and> \<not> endsWith u ''.ico'' \<and>
         \<not> endsWith u ''.png'' \<and> \<not> endsWith u ''.jpg'' \<and> \<not> endsWith u ''.gif'' \<and>
         \<not> includes_str u ''/static/'' \<and> status_code p = 200)"

text \<open>\<open>u.replace(/\/$/, '')\<close>: a slash at the very end is removed.\<close>

definition strip_trailing_slash :: "string \<Rightarrow> string" where
  "strip_trailing_slash u = (if endsWith u ''/'' then butlast u else u)"

text \<open>
  The test that the source uses twice, for the homepage bonus and for the type:
  \<open>page.url === page.url.replace(/\/$/, '') || page.url.endsWith('/')\<close>.
\<close>

definition homepage_test :: "string \<Rightarrow> bool" where
  "homepage_test u = (u = strip_trailing_slash u \<or> endsWith u ''/'')"

definition non_empty :: "'a list option \<Rightarrow> bool" where
  "non_empty xs = (case xs of None \<Rightarrow> False | Some ys \<Rightarrow> length ys > 0)"

text \<open>
  The content score, as an exact rational (the engine computes it in double precision).
  \<open>None\<close> stands for NaN, which the arithmetic gives when \<open>word_count\<close> or
  \<open>internal_links\<close> is absent.
\<close>

definition content_score :: "page \<Rightarrow> rat option" where
  "content_score p =
     (case word_count p of
        None \<Rightarrow> None
      | Some w \<Rightarrow>
          (case internal_links p of
             None \<Rightarrow> None
           | Some l \<Rightarrow>
               (let s0 = (0 :: rat);
                    s1 = s0 + min (of_int w / 10) 40;
                    s2 = s1 + of_int l * 10;
                    s3 = (if non_empty (h1 p) then s2 + 20 else s2);
                    s4 = (if non_empty (h2 p) then s3 + 10 else s3)
                in Some (if homepage_test (url p) then s4 + 15 else s4))))"

definition page_type :: "string \<Rightarrow> string" where
  "page_type u =
     (if homepage_test u then ''homepage''
      else if includes_str u ''/blog'' then ''blog''
      else if includes_str u ''/about'' then ''about''
      else if includes_str u ''/contact'' then ''contact''
      else if includes_str u ''/product'' \<or> includes_str u ''/service'' then ''product''
      else ''content'')"

text \<open>\<open>Math.round\<close>: the nearest integer, a half rounding up.\<close>

definition js_round :: "rat \<Rightarrow> int" where
  "js_round x = \<lfloor>x + 1 / 2\<rfloor>"

definition to_key_page :: "page \<times> rat \<Rightarrow> key_page" where
  "to_key_page ps =
     (let p = fst ps
      in \<lparr>kp_url = url p,
          kp_title = (case title p of None \<Rightarrow> [] | Some t \<Rightarrow> t),
          kp_type = page_type (url p),
          kp_word_count = word_count p,
          kp_internal_links = internal_links p,
          key_headings = take 5 ((case h1 p of None \<Rightarrow> [] | Some hs \<Rightarrow> hs) @
                                 (case h2 p of None \<Rightarrow> [] | Some hs \<Rightarrow> hs)),
          importance_score = js_round (snd ps)\<rparr>)"

text \<open>
  \<open>detectKeyPages\<close>: filter, score, sort by descending score (the sort is stable), keep
  ten, classify. With a NaN score among the candidates the comparator is inconsistent
  and the order that \<open>Array.prototype.sort\<close> leaves is implementation-defined; the model
  gives no result (\<open>None\<close>) there.
\<close>

definition detectKeyPages :: "page list \<Rightarrow> key_page list option" where
  "detectKeyPages ps =
     (let contentPages = filter is_key_candidate ps
      in case those (map (\<lambda>p. map_option (Pair p) (content_score p)) contentPages) of
           None \<Rightarrow> None
         | Some scored \<Rightarrow>
             Some (map to_key_page (take 10 (sort_key (\<lambda>ps. - snd ps) scored))))"

text \<open>Two pages of one site: the root and a blog post.\<close>

definition example_home :: page where
  "example_home =
     \<lparr>url = ''https://example.com/'', status_code = 200, title = Some ''Example'',
      meta_description = Some ''An example site'', h1 = Some [''Welcome''], h2 = Some [],
      h3 = Some [], structured_data = Some [], word_count = Some 120, images = Some [],
      internal_links = Some 1, external_links = Some 0, error = None\<rparr>"

definition example_post :: page where
  "example_post =
     \<lparr>url = ''https://example.com/blog/first-post'', status_code = 200,
      title = Some ''First post'', meta_description = Some ''The first post'',
      h1 = Some [''First post''], h2 = Some [], h3 = Some [], structured_data = Some [],
      word_count = Some 85, images = Some [], internal_links = Some 1,
      external_links = Some 0, error = None\<rparr>"

section \<open>Regular-expression scans\<close>

text \<open>
  The flag \<open>i\<close> compares letters without regard to case. The patterns below have ASCII
  letters only, and a code unit matches such a letter exactly when it is that letter in
  either case.
\<close>

fun startsWith_ci :: "string \<Rightarrow> string \<Rightarrow> bool" where
  "startsWith_ci s [] = True"
| "startsWith_ci [] (c # cs) = False"
| "startsWith_ci (x # xs) (c # cs) = (lower_char x = lower_char c \<and> startsWith_ci xs cs)"

definition is_quote :: "char \<Rightarrow> bool" where
  "is_quote c = (c = CHR 0x22 \<or> c = CHR 0x27)"

text \<open>
  A match of \<open>/href=["']([^"']+)["']/i\<close> that starts at the head of the string: the
  captured group and the text after the match. The group is the whole run of
  characters other than quotes, since a shorter run is not followed by a quote.
\<close>

definition match_href :: "string \<Rightarrow> (string \<times> string) option" where
  "match_href s =
     (if startsWith_ci s ''href=''
      then (case drop 5 s of
              [] \<Rightarrow> None
            | q # r \<Rightarrow>
                if is_quote q
                then (let v = takeWhile (\<lambda>c. \<not> is_quote c) r;
                          rest = dropWhile (\<lambda>c. \<not> is_quote c) r
                      in if v \<noteq> [] \<and> rest \<noteq> [] then Some (v, tl rest) else None)
                else None)
      else None)"

lemma match_href_shorter: "match_href s = Some (v, rest) \<Longrightarrow> length rest < length s"
proof -
  assume m: "match_href s = Some (v, rest)"
  then obtain q r where d: "drop 5 s = q # r" and rest: "rest = tl (dropWhile (\<lambda>c. \<not> is_quote c) r)"
    by (auto simp: match_href_def Let_def split: if_splits list.splits)
  have "length (dropWhile (\<lambda>c. \<not> is_quote c) r) \<le> length r"
    by (rule length_dropWhile_le)
  then have "length rest \<le> length r"
    unfolding rest by simp
  moreover have "length r < length s"
    using arg_cong [OF d, of length] by simp
  ultimately show ?thesis by simp
qed

text \<open>
  The loop \<open>while ((match = urlRegex.exec(html)) !== null)\<close> of a global pattern: the
  leftmost match, then the search goes on behind it. The result lists the captured
  groups in order.
\<close>

function scan_hrefs :: "string \<Rightarrow> string list" where
  "scan_hrefs [] = []"
| "scan_hrefs (c # cs) =
     (case match_href (c # cs) of
        None \<Rightarrow> scan_hrefs cs
      | Some (v, rest) \<Rightarrow> v # scan_hrefs rest)"
  by pat_completeness auto
termination
  by (relation "measure length") (auto dest: match_href_shorter)

text \<open>
  The pattern for JSON-LD blocks,
  \<open>/<script[^>]+type=["']application\/ld\+json["'][^>]*>([\s\S]*?)<\/script>/gi\<close>.
  Behind \<open><script\<close> the tag runs to the first \<open>>\<close>; the attribute has to stand in
  it, at least one character behind \<open><script\<close>; the captured group runs from that \<open>>\<close>
  to the first \<open></script>\<close>.
\<close>

definition ld_type_attr :: "string \<Rightarrow> bool" where
  "ld_type_attr s =
     (startsWith_ci s ''type='' \<and>
      (case drop 5 s of
         [] \<Rightarrow> False
       | q # r \<Rightarrow>
           is_quote q \<and> startsWith_ci r ''application/ld+json'' \<and>
           (case drop 19 r of [] \<Rightarrow> False | q' # r' \<Rightarrow> is_quote q')))"

fun any_suffix :: "(string \<Rightarrow> bool) \<Rightarrow> string \<Rightarrow> bool" where
  "any_suffix P [] = P []"
| "any_suffix P (c # cs) = (P (c # cs) \<or> any_suffix P cs)"

text \<open>The first occurrence of a pattern, without regard to case: the text before and after it.\<close>

fun find_ci :: "string \<Rightarrow> string \<Rightarrow> (string \<times> string) option" where
  "find_ci pat [] = (if pat = [] then Some ([], []) else None)"
| "find_ci pat (c # cs) =
     (if startsWith_ci (c # cs) pat then Some ([], drop (length pat) (c # cs))
      else (case find_ci pat cs of None \<Rightarrow> None | Some (b, a) \<Rightarrow> Some (c # b, a)))"

definition match_jsonld :: "string \<Rightarrow> (string \<times> string) option" where
  "match_jsonld s =
     (if startsWith_ci s ''<script''
      then (let r = drop 7 s;
                tag = takeWhile (\<lambda>c. c \<noteq> CHR ''>'') r;
                after = dropWhile (\<lambda>c. c \<noteq> CHR ''>'') r
            in if tag \<noteq> [] \<and> any_suffix ld_type_attr (tl tag) \<and> after \<noteq> []
               then find_ci ''</script>'' (tl after)
               else None)
      else None)"

lemma find_ci_shorter: "find_ci pat s = Some (b, a) \<Longrightarrow> length a \<le> length s"
  by (induction s arbitrary: b) (auto split: if_splits option.splits)

lemma match_jsonld_shorter: "match_jsonld s = Some (v, rest) \<Longrightarrow> length rest < length s"
proof -
  assume m: "match_jsonld s = Some (v, rest)"
  let ?r = "drop 7 s"
  let ?after = "dropWhile (\<lambda>c. c \<noteq> CHR ''>'') ?r"
  from m have ne: "?after \<noteq> []" and f: "find_ci ''</script>'' (tl ?after) = Some (v, rest)"
    by (auto simp: match_jsonld_def Let_def split: if_splits)
  have "length rest \<le> length (tl ?after)" using f by (rule find_ci_shorter)
  also have "\<dots> < length ?after" using ne by (cases ?after) auto
  also have "\<dots> \<le> length ?r" by (rule length_dropWhile_le)
  also have "\<dots> \<le> length s" by simp
  finally show ?thesis .
qed

function scan_jsonld :: "string \<Rightarrow> string list" where
  "scan_jsonld [] = []"
| "scan_jsonld (c # cs) =
     (case match_jsonld (c # cs) of
        None \<Rightarrow> scan_jsonld cs
      | Some (v, rest) \<Rightarrow> v # scan_jsonld rest)"
  by pat_completeness auto
termination
  by (relation "measure length") (auto dest: match_jsonld_shorter)

section \<open>Crawler (lib/crawler.js)\<close>

text \<open>
  The platform's \<open>URL\<close> class is a parameter of the model: \<open>url_new s\<close> is
  \<open>new URL(s)\<close> and \<open>url_new_base s b\<close> is \<open>new URL(s, b)\<close>, \<open>None\<close> when the constructor
  throws. Of a URL object the crawler reads \<open>href\<close> and \<open>hostname\<close>.
\<close>

record url_obj =
  href :: string
  hostname :: string

record url_api =
  url_new :: "string \<Rightarrow> url_obj option"
  url_new_base :: "string \<Rightarrow> url_obj \<Rightarrow> url_obj option"

text \<open>\<open>[...new Set(links)]\<close>: the first occurrence of each element, in order.\<close>

fun dedupe :: "'a list \<Rightarrow> 'a list" where
  "dedupe [] = []"
| "dedupe (x # xs) = x # dedupe (filter (\<lambda>y. y \<noteq> x) xs)"

text \<open>
  The body of the loop of \<open>extractLinks\<close> for one captured \<open>href\<close>: the link to push,
  or \<open>None\<close> where the source says \<open>continue\<close> or pushes nothing.
\<close>

definition link_of :: "url_api \<Rightarrow> url_obj \<Rightarrow> string \<Rightarrow> string option" where
  "link_of api base h =
     (if startsWith h ''#'' \<or> startsWith h ''javascript:'' \<or>
         startsWith h ''mailto:'' \<or> startsWith h ''tel:''
      then None
      else (case url_new_base api h base of
              None \<Rightarrow> None
            | Some resolvedUrl \<Rightarrow>
                if hostname resolvedUrl = hostname base then Some (href resolvedUrl) else None))"

definition extractLinks :: "url_api \<Rightarrow> string \<Rightarrow> url_obj \<Rightarrow> string list" where
  "extractLinks api html base = dedupe (List.map_filter (link_of api base) (scan_hrefs html))"

text \<open>
  \<open>allLinks.filter(l => new URL(l).hostname === baseUrl.hostname)\<close>; \<open>None\<close> when a
  \<open>new URL(l)\<close> throws.
\<close>

fun filter_same_host :: "url_api \<Rightarrow> url_obj \<Rightarrow> string list \<Rightarrow> string list option" where
  "filter_same_host api baseUrl [] = Some []"
| "filter_same_host api baseUrl (l # ls) =
     (case url_new api l of
        None \<Rightarrow> None
      | Some u \<Rightarrow>
          (case filter_same_host api baseUrl ls of
             None \<Rightarrow> None
           | Some rest \<Rightarrow> Some (if hostname u = hostname baseUrl then l # rest else rest)))"

text \<open>
  What the crawl runs in: the \<open>URL\<close> class, the web (for a URL either the message of
  the error that \<open>fetchPage\<close> or \<open>response.text()\<close> throws, or the response),
  \<open>extractMeta\<close> (a parameter here; its result carries no \<open>url\<close>, \<open>status_code\<close> or
  \<open>error\<close>, and the model sets these three fields) and \<open>baseUrl = new URL(START_URL)\<close>.
\<close>

record response =
  status :: int
  body :: string

record env =
  api :: url_api
  web :: "string \<Rightarrow> string + response"
  extractMeta :: "string \<Rightarrow> page"
  baseUrl :: url_obj

definition MAX_PAGES :: nat where
  "MAX_PAGES = 10"

record crawl_state =
  visited :: "string set"
  crawled :: "page list"

definition error_page :: "string \<Rightarrow> string \<Rightarrow> page" where
  "error_page u msg =
     \<lparr>url = u, status_code = 0, title = None, meta_description = None, h1 = None, h2 = None,
      h3 = None, structured_data = None, word_count = None, images = None,
      internal_links = None, external_links = None, error = Some msg\<rparr>"

text \<open>
  The \<open>try\<close> block of \<open>crawl\<close> up to \<open>pages.push(pageData)\<close>: the page record and
  \<open>allLinks\<close>, or the message of the error thrown on the way.
\<close>

definition fetch_page_data :: "env \<Rightarrow> string \<Rightarrow> string + (page \<times> string list)" where
  "fetch_page_data E u =
     (case web E u of
        Inl msg \<Rightarrow> Inl msg
      | Inr r \<Rightarrow>
          (case url_new (api E) u of
             None \<Rightarrow> Inl ''Invalid URL''
           | Some base \<Rightarrow>
               (let allLinks = extractLinks (api E) (body r) base
                in case filter_same_host (api E) (baseUrl E) allLinks of
                     None \<Rightarrow> Inl ''Invalid URL''
                   | Some internal \<Rightarrow>
                       Inr ((extractMeta E (body r))
                              \<lparr>url := u, status_code := status r,
                               internal_links := Some (int (length internal)),
                               external_links := Some (int (length allLinks) - int (length internal)),
                               error := None\<rparr>,
                            allLinks))))"

text \<open>
  \<open>crawl\<close> and its loop over the links to follow. The recursion of the source is
  bounded by the page budget; the model counts the depth down from its first argument
  and gives \<open>None\<close> when that runs out. An error thrown behind \<open>pages.push(pageData)\<close>
  would reach the same \<open>catch\<close> and push a second record.
\<close>

fun crawl :: "env \<Rightarrow> nat \<Rightarrow> string \<Rightarrow> crawl_state \<Rightarrow> crawl_state option"
  and follow :: "env \<Rightarrow> nat \<Rightarrow> string list \<Rightarrow> crawl_state \<Rightarrow> crawl_state option" where
  "crawl E 0 u st = None"
| "crawl E (Suc n) u st =
     (if u \<in> visited st \<or> length (crawled st) \<ge> MAX_PAGES then Some st
      else (let st1 = st\<lparr>visited := insert u (visited st)\<rparr>
            in case fetch_page_data E u of
                 Inl msg \<Rightarrow> Some (st1\<lparr>crawled := crawled st1 @ [error_page u msg]\<rparr>)
               | Inr (pageData, allLinks) \<Rightarrow>
                   (let st2 = st1\<lparr>crawled := crawled st1 @ [pageData]\<rparr>
                    in case filter_same_host (api E) (baseUrl E) allLinks of
                         None \<Rightarrow> Some (st2\<lparr>crawled := crawled st2 @ [error_page u ''Invalid URL'']\<rparr>)
                       | Some internalLinks \<Rightarrow>
                           follow E n (take (MAX_PAGES - length (crawled st2)) internalLinks) st2)))"
| "follow E n [] st = Some st"
| "follow E n (link # links) st =
     (if link \<notin> visited st
      then (case crawl E n link st of None \<Rightarrow> None | Some st' \<Rightarrow> follow E n links st')
      else follow E n links st)"

text \<open>\<open>main\<close>: the crawl from the seed, with nothing visited and no page yet.\<close>

definition crawl_site :: "env \<Rightarrow> string \<Rightarrow> crawl_state option" where
  "crawl_site E seed = crawl E (Suc MAX_PAGES) seed \<lparr>visited = {}, crawled = []\<rparr>"

text \<open>Every response of the web has an HTTP status, which is never 0.\<close>

definition http_statuses :: "(string \<Rightarrow> string + response) \<Rightarrow> bool" where
  "http_statuses w = (\<forall>u r. w u = Inr r \<longrightarrow> status r \<noteq> 0)"

text \<open>The invariant of a Page Record: status 0 exactly when \<open>error\<close> is present.\<close>

definition status_error_inv :: "page \<Rightarrow> bool" where
  "status_error_inv p = ((status_code p = 0) = (error p \<noteq> None))"

text \<open>
  What holds of the state between two steps of the crawl: the budget is kept, no URL
  is recorded twice, and every recorded URL has been marked as visited.
\<close>

definition crawl_inv :: "crawl_state \<Rightarrow> bool" where
  "crawl_inv st =
     (length (crawled st) \<le> MAX_PAGES \<and> distinct (map url (crawled st)) \<and>
      url ` set (crawled st) \<subseteq> visited st)"

text \<open>A page whose fetch fails is recorded with status 0 and the message of the error.\<close>

definition failure_recorded :: "env \<Rightarrow> page \<Rightarrow> bool" where
  "failure_recorded E p =
     (case web E (url p) of Inl msg \<Rightarrow> p = error_page (url p) msg | Inr r \<Rightarrow> True)"

text \<open>A record is what the \<open>try\<close> block, or the \<open>catch\<close>, makes of its URL.\<close>

definition produced_by :: "env \<Rightarrow> page \<Rightarrow> bool" where
  "produced_by E p =
     (case fetch_page_data E (url p) of
        Inl msg \<Rightarrow> p = error_page (url p) msg
      | Inr (q, links) \<Rightarrow> p = q)"

text \<open>
  The traversal went on behind the page at position \<open>i\<close> of the list: the links that
  the loop of this page was given, \<open>internalLinks.slice(0, MAX_PAGES - pages.length)\<close>
  with the length the list had once the page was pushed, have all been taken up, or
  the budget is used up.
\<close>

definition links_followed_at :: "env \<Rightarrow> crawl_state \<Rightarrow> nat \<Rightarrow> page \<Rightarrow> bool" where
  "links_followed_at E st i p =
     (case fetch_page_data E (url p) of
        Inl msg \<Rightarrow> True
      | Inr (q, allLinks) \<Rightarrow>
          (case filter_same_host (api E) (baseUrl E) allLinks of
             None \<Rightarrow> True
           | Some internalLinks \<Rightarrow>
               set (take (MAX_PAGES - Suc i) internalLinks) \<subseteq> visited st \<or>
               MAX_PAGES \<le> length (crawled st)))"

definition links_followed :: "env \<Rightarrow> crawl_state \<Rightarrow> bool" where
  "links_followed E st =
     (\<forall>i \<in> {0..<length (crawled st)}. links_followed_at E st i (crawled st ! i))"

section \<open>An example site\<close>

text \<open>
  A stand-in for the \<open>URL\<close> class, for the examples only. It reads absolute
  \<open>http\<close> and \<open>https\<close> URLs with a host in lower case and no port, query or
  fragment, and resolves a reference that starts with a single slash against the
  origin of its base; on these the platform class gives the same \<open>href\<close> and
  \<open>hostname\<close>. Everything else it refuses.
\<close>

definition after_scheme :: "string \<Rightarrow> string option" where
  "after_scheme s =
     (if startsWith s ''https://'' then Some (drop 8 s)
      else if startsWith s ''http://'' then Some (drop 7 s)
      else None)"

definition simple_url_new :: "string \<Rightarrow> url_obj option" where
  "simple_url_new s =
     (case after_scheme s of
        None \<Rightarrow> None
      | Some r \<Rightarrow>
          (let host = takeWhile (\<lambda>c. c \<noteq> CHR ''/'') r;
               path = dropWhile (\<lambda>c. c \<noteq> CHR ''/'') r
           in if host = [] then None
              else Some \<lparr>href = (if path = [] then s @ ''/'' else s), hostname = host\<rparr>))"

definition origin_of :: "url_obj \<Rightarrow> string" where
  "origin_of b =
     (case after_scheme (href b) of
        None \<Rightarrow> []
      | Some r \<Rightarrow> take (length (href b) - length r) (href b) @ hostname b)"

definition simple_url_new_base :: "string \<Rightarrow> url_obj \<Rightarrow> url_obj option" where
  "simple_url_new_base h b =
     (case simple_url_new h of
        Some u \<Rightarrow> Some u
      | None \<Rightarrow>
          if startsWith h ''/'' \<and> \<not> startsWith h ''//''
          then Some \<lparr>href = origin_of b @ h, hostname = hostname b\<rparr>
          else None)"

definition simple_url_api :: url_api where
  "simple_url_api = \<lparr>url_new = simple_url_new, url_new_base = simple_url_new_base\<rparr>"

definition quoted :: "string \<Rightarrow> string" where
  "quoted s = CHR 0x22 # s @ [CHR 0x22]"

text \<open>
  The home page of \<open>site.example\<close>: a link to \<open>/about\<close>, a link to another host, and
  the link to \<open>/about\<close> once more.
\<close>

definition example_html :: string where
  "example_html =
     ''<a href='' @ quoted ''/about'' @ ''>About</a>'' @
     ''<a href='' @ quoted ''https://other.example/'' @ ''>Elsewhere</a>'' @
     ''<a href='' @ quoted ''/about'' @ ''>About us</a>''"

text \<open>The home page answers with status 200; every other fetch fails.\<close>

definition example_web :: "string \<Rightarrow> string + response" where
  "example_web u =
     (if u = ''https://site.example/'' then Inr \<lparr>status = 200, body = example_html\<rparr>
      else Inl ''fetch failed'')"

definition no_meta :: "string \<Rightarrow> page" where
  "no_meta html =
     \<lparr>url = [], status_code = 0, title = Some [], meta_description = Some [], h1 = Some [],
      h2 = Some [], h3 = Some [], structured_data = Some [], word_count = Some 0,
      images = Some [], internal_links = Some 0, external_links = Some 0, error = None\<rparr>"

definition example_env :: env where
  "example_env =
     \<lparr>api = simple_url_api, web = example_web, extractMeta = no_meta,
      baseUrl = \<lparr>href = ''https://site.example/'', hostname = ''site.example''\<rparr>\<rparr>"

text \<open>
  A shop whose home page links to \<open>/a\<close> and to \<open>/b\<close>: the fetch of \<open>/a\<close> fails, \<open>/b\<close>
  answers with an empty page.
\<close>

definition two_links_html :: string where
  "two_links_html =
     ''<a href='' @ quoted ''/a'' @ ''>A</a><a href='' @ quoted ''/b'' @ ''>B</a>''"

definition failing_link_web :: "string \<Rightarrow> string + response" where
  "failing_link_web u =
     (if u = ''https://shop.example/'' then Inr \<lparr>status = 200, body = two_links_html\<rparr>
      else if u = ''https://shop.example/b'' then Inr \<lparr>status = 200, body = []\<rparr>
      else Inl ''fetch failed'')"

definition failing_link_env :: env where
  "failing_link_env =
     \<lparr>api = simple_url_api, web = failing_link_web, extractMeta = no_meta,
      baseUrl = \<lparr>href = ''https://shop.example/'', hostname = ''shop.example''\<rparr>\<rparr>"

text \<open>
  The site entered without the final slash, \<open>https://site.example\<close>; its root page links
  to \<open>/\<close>. The server answers both spellings of the root with the same page.
\<close>

definition root_link_html :: string where
  "root_link_html = ''<a href='' @ quoted ''/'' @ ''>Home</a>''"

definition slashless_web :: "string \<Rightarrow> string + response" where
  "slashless_web u =
     (if u = ''https://site.example'' \<or> u = ''https://site.example/''
      then Inr \<lparr>status = 200, body = root_link_html\<rparr>
      else Inl ''fetch failed'')"

definition slashless_env :: env where
  "slashless_env =
     \<lparr>api = simple_url_api, web = slashless_web, extractMeta = no_meta,
      baseUrl = \<lparr>href = ''https://site.example/'', hostname = ''site.example''\<rparr>\<rparr>"

section \<open>Structured-data extraction\<close>

text \<open>
  \<open>JSON.parse\<close> is a parameter of the model: the parsed value, or \<open>None\<close> when it
  throws a SyntaxError.
\<close>

type_synonym json_parse = "string \<Rightarrow> json option"

text \<open>
  The JSON-LD loop of \<open>extractMeta\<close> (lib/crawler.js):
  \<open>try { result.structured_data.push(JSON.parse(jsonLdMatch[1])); } catch {}\<close>.
\<close>

definition extractMeta_structured_data :: "json_parse \<Rightarrow> string \<Rightarrow> json list" where
  "extractMeta_structured_data parse html = List.map_filter parse (scan_jsonld html)"

record sd_entry =
  sd_type :: string
  schema :: json
  data :: json

text \<open>
  \<open>parsed['@type']\<close>: reading a property of \<open>null\<close> throws a TypeError (\<open>None\<close>); an
  object gives the value of the key or \<open>undefined\<close>; the other values have no such
  property and give \<open>undefined\<close>.
\<close>

definition at_type :: "json \<Rightarrow> json option option" where
  "at_type v =
     (case v of
        JNull \<Rightarrow> None
      | JObj kvs \<Rightarrow> Some (map_of kvs ''@type'')
      | _ \<Rightarrow> Some None)"

fun truthy :: "json \<Rightarrow> bool" where
  "truthy JNull = False"
| "truthy (JBool b) = b"
| "truthy (JNum n) = (n \<noteq> 0)"
| "truthy (JStr s) = (s \<noteq> [])"
| "truthy (JArr xs) = True"
| "truthy (JObj kvs) = True"

text \<open>
  The body of the JSON-LD loop of \<open>extractStructuredData\<close> for one captured block:
  the entry to push, or \<open>None\<close> when the \<open>try\<close> block throws and the \<open>catch\<close> skips
  the block.
\<close>

definition jsonld_entry :: "json_parse \<Rightarrow> string \<Rightarrow> sd_entry option" where
  "jsonld_entry parse block =
     (case parse block of
        None \<Rightarrow> None
      | Some parsed \<Rightarrow>
          (case at_type parsed of
             None \<Rightarrow> None
           | Some t \<Rightarrow>
               Some \<lparr>sd_type = ''json-ld'',
                     schema = (case t of
                                 None \<Rightarrow> JStr ''Unknown''
                               | Some v \<Rightarrow> if truthy v then v else JStr ''Unknown''),
                     data = parsed\<rparr>))"

text \<open>
  The scans for OpenGraph, Twitter Card and Microdata tags are parameters: the pairs
  that the patterns capture, in the order of the matches (for OpenGraph the matches
  of the first pattern as (property, content), then those of the alternate pattern).
\<close>

record tag_scans =
  og_matches :: "string \<Rightarrow> (string \<times> string) list"
  twitter_matches :: "string \<Rightarrow> (string \<times> string) list"
  microdata_matches :: "string \<Rightarrow> (string \<times> string) list"

text \<open>\<open>tags[k] = v\<close> for each match in turn, on an object that starts empty.\<close>

definition collect_tags :: "(string \<times> string) list \<Rightarrow> (string \<times> string) list" where
  "collect_tags ms = foldl (\<lambda>obj kv. AList.update (fst kv) (snd kv) obj) [] ms"

definition tags_entry :: "string \<Rightarrow> string \<Rightarrow> string \<Rightarrow> (string \<times> string) list \<Rightarrow> sd_entry list" where
  "tags_entry ty key dflt tags =
     (if length tags > 0
      then [\<lparr>sd_type = ty,
             schema = JStr (case map_of tags key of
                              None \<Rightarrow> dflt
                            | Some v \<Rightarrow> if v \<noteq> [] then v else dflt),
             data = JObj (map (\<lambda>kv. (fst kv, JStr (snd kv))) tags)\<rparr>]
      else [])"

text \<open>\<open>schemaUrl.split('/').pop().replace(']', '')\<close>\<close>

definition schema_type_of :: "string \<Rightarrow> string" where
  "schema_type_of schemaUrl = remove1 (CHR '']'') (rev (takeWhile (\<lambda>c. c \<noteq> CHR ''/'') (rev schemaUrl)))"

definition microdata_entry :: "string \<times> string \<Rightarrow> sd_entry" where
  "microdata_entry m =
     \<lparr>sd_type = ''microdata'', schema = JStr (schema_type_of (snd m)),
      data = JObj [(''element'', JStr (fst m)), (''itemType'', JStr (snd m))]\<rparr>"

definition extractStructuredData :: "json_parse \<Rightarrow> tag_scans \<Rightarrow> string \<Rightarrow> sd_entry list" where
  "extractStructuredData parse scans html =
     List.map_filter (jsonld_entry parse) (scan_jsonld html) @
     tags_entry ''opengraph'' ''og:type'' ''website'' (collect_tags (og_matches scans html)) @
     tags_entry ''twitter-card'' ''twitter:card'' ''summary'' (collect_tags (twitter_matches scans html)) @
     map microdata_entry (microdata_matches scans html)"

definition json_ld_entries :: "sd_entry list \<Rightarrow> sd_entry list" where
  "json_ld_entries es = filter (\<lambda>e. sd_type e = ''json-ld'') es"

text \<open>
  A page with two JSON-LD blocks, the first holding the JSON text \<open>null\<close>, the second
  cut off in the middle of an object.
\<close>

definition ld_block :: "string \<Rightarrow> string" where
  "ld_block content = ''<script type='' @ quoted ''application/ld+json'' @ ''>'' @ content @ ''</script>''"

definition null_and_malformed :: string where
  "null_and_malformed =
     ''<html><head>'' @ ld_block ''null'' @ ld_block (''{'' @ quoted ''@type'' @ '': '') @
     ''</head><body></body></html>''"

text \<open>
  A stand-in for \<open>JSON.parse\<close> on the texts of the examples: \<open>null\<close> is valid JSON, an
  object with one string member is, and the cut-off object is not.
\<close>

definition example_parse :: json_parse where
  "example_parse s =
     (if s = ''null'' then Some JNull
      else if s = ''{'' @ quoted ''@type'' @ '': '' @ quoted ''Organization'' @ ''}''
      then Some (JObj [(''@type'', JStr ''Organization'')])
      else None)"

definition no_tags :: tag_scans where
  "no_tags = \<lparr>og_matches = (\<lambda>html. []), twitter_matches = (\<lambda>html. []),
              microdata_matches = (\<lambda>html. [])\<rparr>"

section \<open>Properties of the monitoring engine\<close>

lemma fold_compare_metric:
  "foldl (compare_metric cur base) d metrics =
     (if fallback_score cur = fallback_score base then d
      else d\<lparr>changes := changes d @
                 map (\<lambda>m. \<lparr>type = m, baseline = fallback_score base, current = fallback_score cur,
                            delta = fallback_score cur - fallback_score base\<rparr>) metrics,
              summary := (summary d)\<lparr>has_changes := True,
                 scores := foldl (\<lambda>al m. AList.update m
                      \<lparr>sd_baseline = fallback_score base, sd_current = fallback_score cur,
                       sd_delta = fallback_score cur - fallback_score base\<rparr> al)
                   (scores (summary d)) metrics\<rparr>\<rparr>)"
  by (simp add: metrics_def compare_metric_def Let_def)


text \<open>
  C4. A snapshot compared against itself gives a diff with no change entry and
  \<open>summary.has_changes = false\<close>.
\<close>

theorem compareWithBaseline_self:
  "changes (compareWithBaseline now S S) = [] \<and>
   has_changes (summary (compareWithBaseline now S S)) = False"
  unfolding compareWithBaseline_def Let_def fold_compare_metric
  by simp

lemma foldl_check_change:
  "foldl (check_change th) acc cs =
     acc @ concat (map (\<lambda>c. issues_gate th c @ score_gate th c @ pages_gate th c) cs)"
proof (induction cs arbitrary: acc)
  case Nil
  show ?case by simp
next
  case (Cons c cs)
  have step: "check_change th acc c = acc @ issues_gate th c @ score_gate th c @ pages_gate th c"
    by (simp add: check_change_def issues_gate_def score_gate_def pages_gate_def Let_def)
  show ?case by (simp add: Cons.IH step)
qed

text \<open>
  C5. \<open>checkThresholds\<close> returns exactly the alerts of three independent gates, applied
  to every change entry of the diff in order: critical for an \<open>issues_count\<close> change
  whose delta is greater than \<open>new_issues_critical\<close>, warning for a score-type change
  whose delta is less than \<open>-score_drop_above\<close>, warning for a \<open>page_count\<close> change
  whose delta is less than \<open>-pages_removed_above\<close>. Nothing stops after the first
  alert, so one run may raise several.
\<close>

theorem checkThresholds_gates:
  "checkThresholds d th =
     concat (map (\<lambda>c. issues_gate th c @ score_gate th c @ pages_gate th c) (changes d))"
  by (simp add: checkThresholds_def foldl_check_change)

section \<open>Bounded history\<close>

lemma slice_last_append: "slice_last n (slice_last n xs @ ys) = slice_last n (xs @ ys)"
proof (cases "length xs \<le> n")
  case True
  then show ?thesis by (simp add: slice_last_def)
next
  case False
  then have "length xs + length ys - (length xs - n + n) + (length xs - n) = length xs + length ys - n"
    by arith
  then show ?thesis by (simp add: slice_last_def)
qed

lemma slice_last_short: "length xs \<le> n \<Longrightarrow> slice_last n xs = xs"
  by (simp add: slice_last_def)

lemma runMonitoringCheck_history:
  assumes "config_file st = Some cfg" "enabled (monitoring cfg)" "loadBaseline st = Some base"
  shows "snd (runMonitoringCheck now cur st) =
           st\<lparr>config_file := Some (cfg\<lparr>history :=
             Some (slice_last 30 ((case history cfg of None \<Rightarrow> [] | Some h \<Rightarrow> h) @
                     [entry_of base (alert_thresholds (monitoring cfg)) (now, cur)]))\<rparr>)\<rparr>"
  using assms
  by (simp add: runMonitoringCheck_def loadMonitoringConfig_def Let_def entry_of_def slice_last_def)

lemma loadBaseline_history_update:
  "config_file st = Some cfg \<Longrightarrow>
   loadBaseline (st\<lparr>config_file := Some (cfg\<lparr>history := h\<rparr>)\<rparr>) = loadBaseline st"
  by (simp add: loadBaseline_def loadMonitoringConfig_def split: option.splits)

lemma run_checks_history:
  assumes "config_file st = Some cfg" "enabled (monitoring cfg)" "loadBaseline st = Some base"
  shows "run_checks calls st =
           (if calls = [] then st
            else st\<lparr>config_file := Some (cfg\<lparr>history :=
              Some (slice_last 30 ((case history cfg of None \<Rightarrow> [] | Some h \<Rightarrow> h) @
                      map (entry_of base (alert_thresholds (monitoring cfg))) calls))\<rparr>)\<rparr>)"
  using assms
proof (induction calls arbitrary: st cfg)
  case Nil
  show ?case by simp
next
  case (Cons call calls)
  obtain now cur where call: "call = (now, cur)" by (cases call)
  let ?th = "alert_thresholds (monitoring cfg)"
  let ?h1 = "slice_last 30 ((case history cfg of None \<Rightarrow> [] | Some h \<Rightarrow> h) @ [entry_of base ?th (now, cur)])"
  let ?cfg1 = "cfg\<lparr>history := Some ?h1\<rparr>"
  let ?st1 = "st\<lparr>config_file := Some ?cfg1\<rparr>"
  have step: "snd (runMonitoringCheck now cur st) = ?st1"
    using Cons.prems by (rule runMonitoringCheck_history)
  have c1: "config_file ?st1 = Some ?cfg1" by simp
  have e1: "enabled (monitoring ?cfg1)" using Cons.prems(2) by simp
  have b1: "loadBaseline ?st1 = Some base"
    using Cons.prems(1,3) by (simp add: loadBaseline_history_update)
  show ?case
  proof (cases "calls = []")
    case True
    then show ?thesis by (simp add: call step)
  next
    case False
    have "run_checks (call # calls) st = run_checks calls ?st1"
      by (simp add: call step)
    also have "\<dots> = ?st1\<lparr>config_file := Some (?cfg1\<lparr>history :=
              Some (slice_last 30 (?h1 @ map (entry_of base ?th) calls))\<rparr>)\<rparr>"
      using Cons.IH [OF c1 e1 b1] False by simp
    finally show ?thesis
      by (simp add: slice_last_append call)
  qed
qed

text \<open>
  C9. Starting from a configuration that is enabled, has a baseline and an empty (or
  absent) history, 35 checks in a row leave in the persisted history exactly the entries
  of the last 30 calls, in call order: the five oldest have been evicted.
\<close>

theorem history_after_35_checks:
  assumes "config_file st = Some cfg" and "enabled (monitoring cfg)"
    and "history cfg = None \<or> history cfg = Some []"
    and "loadBaseline st = Some base"
    and "length calls = 35"
  shows "Option.bind (config_file (run_checks calls st)) history =
           Some (map (entry_of base (alert_thresholds (monitoring cfg))) (drop 5 calls))"
proof -
  have ne: "calls \<noteq> []" using assms(5) by auto
  have h0: "(case history cfg of None \<Rightarrow> [] | Some h \<Rightarrow> h) = []"
    using assms(3) by auto
  show ?thesis
    using assms(5) ne
    by (simp add: run_checks_history [OF assms(1,2,4)] h0 slice_last_def drop_map)
qed

theorem history_after_35_checks_witness:
  "config_file example_store = Some example_config \<and> enabled (monitoring example_config) \<and>
   history example_config = None \<and> loadBaseline example_store = Some (example_snapshot 3) \<and>
   length example_calls = 35 \<and>
   Option.bind (config_file (run_checks example_calls example_store)) history =
     Some (map (entry_of (example_snapshot 3) example_thresholds) (drop 5 example_calls))"
proof -
  have a: "config_file example_store = Some example_config" by (simp add: example_store_def)
  have b: "enabled (monitoring example_config)" by (simp add: example_config_def)
  have c: "history example_config = None" by (simp add: example_config_def)
  have d: "loadBaseline example_store = Some (example_snapshot 3)"
    by (simp add: loadBaseline_def loadMonitoringConfig_def example_store_def example_config_def)
  have e: "length example_calls = 35" by (simp add: example_calls_def)
  have th: "alert_thresholds (monitoring example_config) = example_thresholds"
    by (simp add: example_config_def)
  show ?thesis
    using history_after_35_checks [OF a b _ d e] a b c d e th by simp
qed

section \<open>Content coverage on a bare page\<close>

lemma int_to_string_30: "int_to_string 30 = ''30''"
  by code_simp

text \<open>
  C8 (as amended). A snapshot of exactly one page, with status 200, 30 words, a title
  that is not blank after trimming, no meta description, no H1 and no images, and a
  URL that does not end in one of the asset extensions \<open>.css .js .ico .png .jpg\<close>,
  gets exactly the issues \<open>missing_meta_description\<close> (high), \<open>missing_h1\<close> (high) and
  \<open>thin_content\<close> (medium), and the coverage score 100 - 15 - 15 - 5 = 65.
\<close>

theorem coverage_bare_page:
  assumes "pages s = Some [p]" and "status_code p = 200" and "word_count p = Some 30"
    and "title p = Some t" and "trim t \<noteq> []"
    and "meta_description p = None \<or> meta_description p = Some []"
    and "h1 p = None \<or> h1 p = Some []"
    and "images p = None \<or> images p = Some []"
    and "is_content_page p"
  shows "issues (analyzeContentCoverage s) =
           [\<lparr>issue_type = ''missing_meta_description'', severity = ''high'', issue_page = url p,
             issue_message = ''Page missing meta description''\<rparr>,
            \<lparr>issue_type = ''missing_h1'', severity = ''high'', issue_page = url p,
             issue_message = ''Page missing H1 heading''\<rparr>,
            \<lparr>issue_type = ''thin_content'', severity = ''medium'', issue_page = url p,
             issue_message = ''Very low word count (30). Pages should have substantial content.''\<rparr>] \<and>
         summary_coverage_score (result_summary (analyzeContentCoverage s)) = 65"
proof -
  have m: "check_meta_description p =
             [\<lparr>issue_type = ''missing_meta_description'', severity = ''high'', issue_page = url p,
               issue_message = ''Page missing meta description''\<rparr>]"
    using assms(6) by (auto simp: check_meta_description_def blank_str_def)
  have h: "check_h1 p =
             [\<lparr>issue_type = ''missing_h1'', severity = ''high'', issue_page = url p,
               issue_message = ''Page missing H1 heading''\<rparr>]"
    using assms(7) by (auto simp: check_h1_def)
  have t: "check_title p = []"
    using assms(4,5) by (auto simp: check_title_def blank_str_def trim_def)
  have w: "check_word_count p =
             [\<lparr>issue_type = ''thin_content'', severity = ''medium'', issue_page = url p,
               issue_message = ''Very low word count (30). Pages should have substantial content.''\<rparr>]"
    using assms(3) by (simp add: check_word_count_def int_to_string_30)
  have i: "check_images p = []"
    using assms(8) by (auto simp: check_images_def)
  have iss: "issues (analyzeContentCoverage s) = check_meta_description p @ check_h1 p @ check_word_count p"
    using assms(1,9) by (simp add: analyzeContentCoverage_def Let_def t i)
  have sc: "summary_coverage_score (result_summary (analyzeContentCoverage s)) =
          calculateCoverageScore [p] (check_meta_description p @ check_h1 p @ check_word_count p)"
    using assms(1,9) by (simp add: analyzeContentCoverage_def Let_def t i)
  have "calculateCoverageScore [p] (check_meta_description p @ check_h1 p @ check_word_count p) = 65"
    unfolding m h w by (simp add: calculateCoverageScore_def)
  then show ?thesis
    using iss sc by (simp add: m h w)
qed
theorem coverage_bare_page_witness:
  "is_content_page (bare_page ''https://example.com/'' ''Home'') \<and>
   trim ''Home'' \<noteq> [] \<and>
   issues (analyzeContentCoverage (snapshot_of [bare_page ''https://example.com/'' ''Home''])) =
     [\<lparr>issue_type = ''missing_meta_description'', severity = ''high'',
       issue_page = ''https://example.com/'', issue_message = ''Page missing meta description''\<rparr>,
      \<lparr>issue_type = ''missing_h1'', severity = ''high'', issue_page = ''https://example.com/'',
       issue_message = ''Page missing H1 heading''\<rparr>,
      \<lparr>issue_type = ''thin_content'', severity = ''medium'', issue_page = ''https://example.com/'',
       issue_message = ''Very low word count (30). Pages should have substantial content.''\<rparr>] \<and>
   summary_coverage_score (result_summary
     (analyzeContentCoverage (snapshot_of [bare_page ''https://example.com/'' ''Home'']))) = 65"
proof -
  have c: "is_content_page (bare_page ''https://example.com/'' ''Home'')"
    by code_simp
  have t: "trim ''Home'' \<noteq> []"
    by code_simp
  have "pages (snapshot_of [bare_page ''https://example.com/'' ''Home'']) =
          Some [bare_page ''https://example.com/'' ''Home'']"
    by (simp add: snapshot_of_def)
  from coverage_bare_page [OF this _ _ _ t _ _ _ c, simplified bare_page_def, simplified]
  show ?thesis
    using c t by (simp add: bare_page_def)
qed

text \<open>
  Without the two side conditions the statement fails: a page whose URL ends in
  \<open>.png\<close> is filtered out before any check (no issue, score 0), and a title of two
  spaces is not empty but counts as missing (a fourth issue, score 50).
\<close>

theorem coverage_bare_page_counterexample:
  "issues (analyzeContentCoverage (snapshot_of [bare_page ''https://example.com/logo.png'' ''Logo''])) = [] \<and>
   summary_coverage_score (result_summary
     (analyzeContentCoverage (snapshot_of [bare_page ''https://example.com/logo.png'' ''Logo'']))) = 0 \<and>
   map issue_type (issues (analyzeContentCoverage (snapshot_of [bare_page ''https://example.com/'' ''  '']))) =
     [''missing_meta_description'', ''missing_h1'', ''missing_title'', ''thin_content''] \<and>
   summary_coverage_score (result_summary
     (analyzeContentCoverage (snapshot_of [bare_page ''https://example.com/'' ''  '']))) = 50"
  by code_simp

section \<open>Classification of key pages\<close>

text \<open>
  The first alternative of the homepage test holds for a URL without a final slash,
  the second for a URL with one: the test holds for every URL, and the branches for
  \<open>blog\<close>, \<open>about\<close>, \<open>contact\<close>, \<open>product\<close> and \<open>content\<close> are never reached.
\<close>

lemma homepage_test_always: "homepage_test u"
  by (simp add: homepage_test_def strip_trailing_slash_def)

lemma page_type_always_homepage: "page_type u = ''homepage''"
  by (simp add: page_type_def homepage_test_always)

text \<open>
  C2. The claim: a retained page gets its type by precedence, \<open>homepage\<close> for the site
  root, else the first match among \<open>/blog\<close>, \<open>/about\<close>, \<open>/contact\<close>, \<open>/product\<close> or
  \<open>/service\<close>, else \<open>content\<close>; a URL that is not the root and contains \<open>/blog\<close> is a
  \<open>blog\<close>. The code at the root and a blog post of one site: both are retained, and the
  blog post comes out as \<open>homepage\<close>.
\<close>

theorem detectKeyPages_blog_post:
  "detectKeyPages [example_home, example_post] =
     Some [\<lparr>kp_url = ''https://example.com/'', kp_title = ''Example'', kp_type = ''homepage'',
             kp_word_count = Some 120, kp_internal_links = Some 1, key_headings = [''Welcome''],
             importance_score = 57\<rparr>,
           \<lparr>kp_url = ''https://example.com/blog/first-post'', kp_title = ''First post'',
             kp_type = ''homepage'', kp_word_count = Some 85, kp_internal_links = Some 1,
             key_headings = [''First post''], importance_score = 54\<rparr>]"
  by code_simp

section \<open>Properties of the crawl\<close>

lemma fetch_page_data_Inr:
  assumes "fetch_page_data E u = Inr (p, links)"
  shows "url p = u" and "error p = None"
    and "\<exists>r. web E u = Inr r \<and> status_code p = status r"
    and "\<exists>internal. filter_same_host (api E) (baseUrl E) links = Some internal"
  using assms
  by (auto simp: fetch_page_data_def Let_def split: sum.splits option.splits)

lemma fetch_page_data_Inl:
  assumes "fetch_page_data E u = Inl msg"
  shows "web E u = Inl msg \<or> (\<exists>r. web E u = Inr r)"
  using assms
  by (auto simp: fetch_page_data_def Let_def split: sum.splits option.splits)

text \<open>One step of \<open>crawl\<close> behind the guard, in the two shapes it can take.\<close>

lemma crawl_Suc_failure:
  assumes "u \<notin> visited st" and "length (crawled st) < MAX_PAGES"
    and "fetch_page_data E u = Inl msg"
  shows "crawl E (Suc n) u st =
           Some (st\<lparr>visited := insert u (visited st), crawled := crawled st @ [error_page u msg]\<rparr>)"
  using assms by (simp add: Let_def)

lemma crawl_Suc_success:
  assumes "u \<notin> visited st" and "length (crawled st) < MAX_PAGES"
    and "fetch_page_data E u = Inr (p, links)"
    and "filter_same_host (api E) (baseUrl E) links = Some internal"
  shows "crawl E (Suc n) u st =
           follow E n (take (MAX_PAGES - Suc (length (crawled st))) internal)
             (st\<lparr>visited := insert u (visited st), crawled := crawled st @ [p]\<rparr>)"
  using assms by (simp add: Let_def)

lemma crawl_Suc_guard:
  assumes "u \<in> visited st \<or> MAX_PAGES \<le> length (crawled st)"
  shows "crawl E (Suc n) u st = Some st"
  using assms by auto

lemma crawl_inv_push:
  assumes "crawl_inv st" and "u \<notin> visited st" and "length (crawled st) < MAX_PAGES"
    and "url p = u"
  shows "crawl_inv (st\<lparr>visited := insert u (visited st), crawled := crawled st @ [p]\<rparr>)"
  using assms by (auto simp: crawl_inv_def)

lemma crawl_follow_inv:
  "crawl E n u st = Some st' \<Longrightarrow> crawl_inv st \<Longrightarrow>
     crawl_inv st' \<and> visited st \<subseteq> visited st' \<and> length (crawled st) \<le> length (crawled st')"
  "follow E n links st = Some st' \<Longrightarrow> crawl_inv st \<Longrightarrow>
     crawl_inv st' \<and> visited st \<subseteq> visited st' \<and> length (crawled st) \<le> length (crawled st')"
proof (induction E n u st and E n links st arbitrary: st' and st' rule: crawl_follow.induct)
  case (1 E u st)
  then show ?case by simp
next
  case (2 E n u st)
  show ?case
  proof (cases "u \<in> visited st \<or> MAX_PAGES \<le> length (crawled st)")
    case True
    with "2.prems" show ?thesis by auto
  next
    case False
    then have nv: "u \<notin> visited st" and lt: "length (crawled st) < MAX_PAGES" by auto
    show ?thesis
    proof (cases "fetch_page_data E u")
      case (Inl msg)
      have "st' = st\<lparr>visited := insert u (visited st), crawled := crawled st @ [error_page u msg]\<rparr>"
        using "2.prems"(1) crawl_Suc_failure [OF nv lt Inl] by simp
      moreover have "url (error_page u msg) = u" by (simp add: error_page_def)
      ultimately show ?thesis
        using crawl_inv_push [OF "2.prems"(2) nv lt] by auto
    next
      case (Inr pl)
      obtain p links where pl: "pl = (p, links)" by (cases pl)
      from Inr pl have f: "fetch_page_data E u = Inr (p, links)" by simp
      obtain internal where i: "filter_same_host (api E) (baseUrl E) links = Some internal"
        using fetch_page_data_Inr(4) [OF f] by blast
      let ?st1 = "st\<lparr>visited := insert u (visited st)\<rparr>"
      let ?st2 = "?st1\<lparr>crawled := crawled ?st1 @ [p]\<rparr>"
      have inv2: "crawl_inv ?st2"
        using crawl_inv_push [OF "2.prems"(2) nv lt fetch_page_data_Inr(1) [OF f]] by simp
      have run: "follow E n (take (MAX_PAGES - length (crawled ?st2)) internal) ?st2 = Some st'"
        using "2.prems"(1) crawl_Suc_success [OF nv lt f i] by simp
      have "crawl_inv st' \<and> visited ?st2 \<subseteq> visited st' \<and>
            length (crawled ?st2) \<le> length (crawled st')"
        using "2.IH" [OF False refl Inr pl [symmetric] refl i run inv2] .
      then show ?thesis by auto
    qed
  qed
next
  case (3 E n st)
  then show ?case by simp
next
  case (4 E n link links st)
  show ?case
  proof (cases "link \<in> visited st")
    case True
    then have "follow E n links st = Some st'" using "4.prems"(1) by simp
    then show ?thesis using "4.IH"(3) True "4.prems"(2) by blast
  next
    case False
    then obtain st1 where c: "crawl E n link st = Some st1" and r: "follow E n links st1 = Some st'"
      using "4.prems"(1) by (auto split: option.splits)
    have s1: "crawl_inv st1 \<and> visited st \<subseteq> visited st1 \<and> length (crawled st) \<le> length (crawled st1)"
      using "4.IH"(1) [OF False c "4.prems"(2)] .
    have "crawl_inv st' \<and> visited st1 \<subseteq> visited st' \<and> length (crawled st1) \<le> length (crawled st')"
      using "4.IH"(2) [OF False c r] s1 by blast
    with s1 show ?thesis by auto
  qed
qed

lemma produced_by_error_page:
  "fetch_page_data E u = Inl msg \<Longrightarrow> produced_by E (error_page u msg)"
  by (simp add: produced_by_def error_page_def)

lemma produced_by_page_data:
  "fetch_page_data E u = Inr (p, links) \<Longrightarrow> produced_by E p"
  using fetch_page_data_Inr(1) [of E u p links] by (simp add: produced_by_def)

lemma crawl_follow_produced:
  "crawl E n u st = Some st' \<Longrightarrow> list_all (produced_by E) (crawled st) \<Longrightarrow>
     list_all (produced_by E) (crawled st')"
  "follow E n links st = Some st' \<Longrightarrow> list_all (produced_by E) (crawled st) \<Longrightarrow>
     list_all (produced_by E) (crawled st')"
proof (induction E n u st and E n links st arbitrary: st' and st' rule: crawl_follow.induct)
  case (1 E u st)
  then show ?case by simp
next
  case (2 E n u st)
  show ?case
  proof (cases "u \<in> visited st \<or> MAX_PAGES \<le> length (crawled st)")
    case True
    with "2.prems" show ?thesis by auto
  next
    case False
    then have nv: "u \<notin> visited st" and lt: "length (crawled st) < MAX_PAGES" by auto
    show ?thesis
    proof (cases "fetch_page_data E u")
      case (Inl msg)
      have "st' = st\<lparr>visited := insert u (visited st), crawled := crawled st @ [error_page u msg]\<rparr>"
        using "2.prems"(1) crawl_Suc_failure [OF nv lt Inl] by simp
      then show ?thesis
        using "2.prems"(2) produced_by_error_page [OF Inl] by simp
    next
      case (Inr pl)
      obtain p links where pl: "pl = (p, links)" by (cases pl)
      from Inr pl have f: "fetch_page_data E u = Inr (p, links)" by simp
      obtain internal where i: "filter_same_host (api E) (baseUrl E) links = Some internal"
        using fetch_page_data_Inr(4) [OF f] by blast
      let ?st1 = "st\<lparr>visited := insert u (visited st)\<rparr>"
      let ?st2 = "?st1\<lparr>crawled := crawled ?st1 @ [p]\<rparr>"
      have all2: "list_all (produced_by E) (crawled ?st2)"
        using "2.prems"(2) produced_by_page_data [OF f] by simp
      have run: "follow E n (take (MAX_PAGES - length (crawled ?st2)) internal) ?st2 = Some st'"
        using "2.prems"(1) crawl_Suc_success [OF nv lt f i] by simp
      show ?thesis
        using "2.IH" [OF False refl Inr pl [symmetric] refl i run all2] .
    qed
  qed
next
  case (3 E n st)
  then show ?case by simp
next
  case (4 E n link links st)
  show ?case
  proof (cases "link \<in> visited st")
    case True
    then have "follow E n links st = Some st'" using "4.prems"(1) by simp
    then show ?thesis using "4.IH"(3) True "4.prems"(2) by blast
  next
    case False
    then obtain st1 where c: "crawl E n link st = Some st1" and r: "follow E n links st1 = Some st'"
      using "4.prems"(1) by (auto split: option.splits)
    show ?thesis
      using "4.IH"(2) [OF False c r "4.IH"(1) [OF False c "4.prems"(2)]] .
  qed
qed

lemma crawl_follow_length:
  "crawl E n u st = Some st' \<Longrightarrow> length (crawled st) \<le> length (crawled st')"
  "follow E n links st = Some st' \<Longrightarrow> length (crawled st) \<le> length (crawled st')"
proof (induction E n u st and E n links st arbitrary: st' and st' rule: crawl_follow.induct)
  case (1 E u st)
  then show ?case by simp
next
  case (2 E n u st)
  then show ?case
    by (auto simp: Let_def split: if_splits sum.splits option.splits prod.splits) fastforce+
next
  case (3 E n st)
  then show ?case by simp
next
  case (4 E n link links st)
  then show ?case
    by (auto split: if_splits option.splits) fastforce+
qed

text \<open>The depth counter never runs out when it starts above the pages still to crawl.\<close>

lemma crawl_follow_total:
  "MAX_PAGES - length (crawled st) < n \<Longrightarrow> \<exists>st'. crawl E n u st = Some st'"
  "MAX_PAGES - length (crawled st) < n \<Longrightarrow> \<exists>st'. follow E n links st = Some st'"
proof (induction E n u st and E n links st rule: crawl_follow.induct)
  case (1 E u st)
  then show ?case by simp
next
  case (2 E n u st)
  show ?case
  proof (cases "u \<in> visited st \<or> MAX_PAGES \<le> length (crawled st)")
    case True
    then show ?thesis by auto
  next
    case False
    then have nv: "u \<notin> visited st" and lt: "length (crawled st) < MAX_PAGES" by auto
    show ?thesis
    proof (cases "fetch_page_data E u")
      case (Inl msg)
      show ?thesis using crawl_Suc_failure [OF nv lt Inl] by simp
    next
      case (Inr pl)
      obtain p links where pl: "pl = (p, links)" by (cases pl)
      from Inr pl have f: "fetch_page_data E u = Inr (p, links)" by simp
      obtain internal where i: "filter_same_host (api E) (baseUrl E) links = Some internal"
        using fetch_page_data_Inr(4) [OF f] by blast
      let ?st1 = "st\<lparr>visited := insert u (visited st)\<rparr>"
      let ?st2 = "?st1\<lparr>crawled := crawled ?st1 @ [p]\<rparr>"
      have fuel: "MAX_PAGES - length (crawled ?st2) < n"
        using "2.prems" lt by simp
      have "\<exists>st'. follow E n (take (MAX_PAGES - length (crawled ?st2)) internal) ?st2 = Some st'"
        using "2.IH" [OF False refl Inr pl [symmetric] refl i fuel] .
      then show ?thesis
        using crawl_Suc_success [OF nv lt f i] by simp
    qed
  qed
next
  case (3 E n st)
  then show ?case by simp
next
  case (4 E n link links st)
  show ?case
  proof (cases "link \<in> visited st")
    case True
    then show ?thesis using "4.IH"(3) "4.prems" by simp
  next
    case False
    obtain st1 where c: "crawl E n link st = Some st1"
      using "4.IH"(1) [OF False "4.prems"] by blast
    have "MAX_PAGES - length (crawled st1) < n"
      using crawl_follow_length(1) [OF c] "4.prems" by simp
    then obtain st' where "follow E n links st1 = Some st'"
      using "4.IH"(2) [OF False c] by blast
    then show ?thesis using False c by simp
  qed
qed

lemma crawl_inv_init: "crawl_inv \<lparr>visited = {}, crawled = []\<rparr>"
  by (simp add: crawl_inv_def)

lemma crawl_site_total: "\<exists>st. crawl_site E seed = Some st"
  unfolding crawl_site_def by (rule crawl_follow_total(1)) simp

text \<open>
  The depth counter only decides whether a result comes out, never which: a crawl
  that returns with some counter returns the same state with every larger one.
\<close>

lemma crawl_follow_deeper:
  "crawl E n u st = Some st' \<Longrightarrow> crawl E (Suc n) u st = Some st'"
  "follow E n links st = Some st' \<Longrightarrow> follow E (Suc n) links st = Some st'"
proof (induction E n u st and E n links st arbitrary: st' and st' rule: crawl_follow.induct)
  case (1 E u st)
  then show ?case by simp
next
  case (2 E n u st)
  show ?case
  proof (cases "u \<in> visited st \<or> MAX_PAGES \<le> length (crawled st)")
    case True
    with "2.prems" show ?thesis by auto
  next
    case False
    then have nv: "u \<notin> visited st" and lt: "length (crawled st) < MAX_PAGES" by auto
    show ?thesis
    proof (cases "fetch_page_data E u")
      case (Inl msg)
      show ?thesis
        using "2.prems" crawl_Suc_failure [OF nv lt Inl, of n]
          crawl_Suc_failure [OF nv lt Inl, of "Suc n"] by simp
    next
      case (Inr pl)
      obtain p links where pl: "pl = (p, links)" by (cases pl)
      from Inr pl have f: "fetch_page_data E u = Inr (p, links)" by simp
      obtain internal where i: "filter_same_host (api E) (baseUrl E) links = Some internal"
        using fetch_page_data_Inr(4) [OF f] by blast
      let ?st1 = "st\<lparr>visited := insert u (visited st)\<rparr>"
      let ?st2 = "?st1\<lparr>crawled := crawled ?st1 @ [p]\<rparr>"
      have run: "follow E n (take (MAX_PAGES - length (crawled ?st2)) internal) ?st2 = Some st'"
        using "2.prems" crawl_Suc_success [OF nv lt f i, of n] by simp
      have "follow E (Suc n) (take (MAX_PAGES - length (crawled ?st2)) internal) ?st2 = Some st'"
        using "2.IH" [OF False refl Inr pl [symmetric] refl i run] .
      then show ?thesis
        using crawl_Suc_success [OF nv lt f i, of "Suc n"] by simp
    qed
  qed
next
  case (3 E n st)
  then show ?case by simp
next
  case (4 E n link links st)
  show ?case
  proof (cases "link \<in> visited st")
    case True
    then have "follow E n links st = Some st'" using "4.prems" by simp
    then have "follow E (Suc n) links st = Some st'" using "4.IH"(3) True by blast
    then show ?thesis using True by (simp del: crawl.simps)
  next
    case False
    then obtain st1 where c: "crawl E n link st = Some st1" and r: "follow E n links st1 = Some st'"
      using "4.prems" by (auto split: option.splits)
    have "crawl E (Suc n) link st = Some st1" using "4.IH"(1) [OF False c] .
    moreover have "follow E (Suc n) links st1 = Some st'" using "4.IH"(2) [OF False c r] .
    ultimately show ?thesis using False by (simp del: crawl.simps)
  qed
qed

text \<open>
  Every crawl run ends, and at its end the list of pages has at most \<open>MAX_PAGES\<close>
  entries (10) and no URL string occurs in it twice.
\<close>

lemma crawl_site_budget:
  "\<exists>st. crawl_site E seed = Some st \<and> length (crawled st) \<le> MAX_PAGES \<and> MAX_PAGES = 10 \<and>
        distinct (map url (crawled st))"
proof -
  obtain st where s: "crawl_site E seed = Some st"
    using crawl_site_total by blast
  then have c: "crawl E (Suc MAX_PAGES) seed \<lparr>visited = {}, crawled = []\<rparr> = Some st"
    unfolding crawl_site_def .
  have "crawl_inv st"
    using crawl_follow_inv(1) [OF c crawl_inv_init] by blast
  then show ?thesis
    using s by (simp add: crawl_inv_def MAX_PAGES_def)
qed

text \<open>The loop over the links goes on behind a link whose fetch fails.\<close>

lemma follow_after_failure:
  assumes "link \<notin> visited st" and "length (crawled st) < MAX_PAGES"
    and "fetch_page_data E link = Inl msg"
  shows "follow E (Suc n) (link # links) st =
           follow E (Suc n) links
             (st\<lparr>visited := insert link (visited st), crawled := crawled st @ [error_page link msg]\<rparr>)"
  using assms by (simp add: crawl_Suc_failure del: crawl.simps)

lemma produced_by_status_error:
  assumes "http_statuses (web E)" and "produced_by E p"
  shows "status_error_inv p"
proof (cases "fetch_page_data E (url p)")
  case (Inl msg)
  then have "p = error_page (url p) msg" using assms(2) by (simp add: produced_by_def)
  then have "status_code p = 0 \<and> error p = Some msg"
    by (metis error_page_def page.select_convs(2,13))
  then show ?thesis by (simp add: status_error_inv_def)
next
  case (Inr pl)
  obtain q links where pl: "pl = (q, links)" by (cases pl)
  with Inr assms(2) have f: "fetch_page_data E (url p) = Inr (p, links)"
    by (simp add: produced_by_def)
  obtain r where "web E (url p) = Inr r" and "status_code p = status r"
    using fetch_page_data_Inr(3) [OF f] by blast
  then have "status_code p \<noteq> 0" using assms(1) by (auto simp: http_statuses_def)
  then show ?thesis using fetch_page_data_Inr(2) [OF f] by (simp add: status_error_inv_def)
qed

lemma produced_by_failure_recorded:
  assumes "produced_by E p"
  shows "failure_recorded E p"
proof (cases "web E (url p)")
  case (Inl msg)
  then have "fetch_page_data E (url p) = Inl msg" by (simp add: fetch_page_data_def)
  then show ?thesis using assms Inl by (simp add: produced_by_def failure_recorded_def)
next
  case (Inr r)
  then show ?thesis by (simp add: failure_recorded_def)
qed

lemma crawl_follow_grows:
  "crawl E n u st = Some st' \<Longrightarrow>
     visited st \<subseteq> visited st' \<and> (\<exists>new. crawled st' = crawled st @ new)"
  "follow E n links st = Some st' \<Longrightarrow>
     visited st \<subseteq> visited st' \<and> (\<exists>new. crawled st' = crawled st @ new)"
proof (induction E n u st and E n links st arbitrary: st' and st' rule: crawl_follow.induct)
  case (1 E u st)
  then show ?case by simp
next
  case (2 E n u st)
  show ?case
  proof (cases "u \<in> visited st \<or> MAX_PAGES \<le> length (crawled st)")
    case True
    with "2.prems" show ?thesis by auto
  next
    case False
    then have nv: "u \<notin> visited st" and lt: "length (crawled st) < MAX_PAGES" by auto
    show ?thesis
    proof (cases "fetch_page_data E u")
      case (Inl msg)
      have "st' = st\<lparr>visited := insert u (visited st), crawled := crawled st @ [error_page u msg]\<rparr>"
        using "2.prems"(1) crawl_Suc_failure [OF nv lt Inl] by simp
      then show ?thesis by auto
    next
      case (Inr pl)
      obtain p links where pl: "pl = (p, links)" by (cases pl)
      from Inr pl have f: "fetch_page_data E u = Inr (p, links)" by simp
      obtain internal where i: "filter_same_host (api E) (baseUrl E) links = Some internal"
        using fetch_page_data_Inr(4) [OF f] by blast
      let ?st1 = "st\<lparr>visited := insert u (visited st)\<rparr>"
      let ?st2 = "?st1\<lparr>crawled := crawled ?st1 @ [p]\<rparr>"
      have run: "follow E n (take (MAX_PAGES - length (crawled ?st2)) internal) ?st2 = Some st'"
        using "2.prems"(1) crawl_Suc_success [OF nv lt f i] by simp
      have "visited ?st2 \<subseteq> visited st' \<and> (\<exists>new. crawled st' = crawled ?st2 @ new)"
        using "2.IH" [OF False refl Inr pl [symmetric] refl i run] .
      then show ?thesis by auto
    qed
  qed
next
  case (3 E n st)
  then show ?case by simp
next
  case (4 E n link links st)
  show ?case
  proof (cases "link \<in> visited st")
    case True
    then have "follow E n links st = Some st'" using "4.prems"(1) by simp
    then show ?thesis using "4.IH"(3) True by blast
  next
    case False
    then obtain st1 where c: "crawl E n link st = Some st1" and r: "follow E n links st1 = Some st'"
      using "4.prems"(1) by (auto split: option.splits)
    have s1: "visited st \<subseteq> visited st1 \<and> (\<exists>new. crawled st1 = crawled st @ new)"
      using "4.IH"(1) [OF False c] .
    have "visited st1 \<subseteq> visited st' \<and> (\<exists>new. crawled st' = crawled st1 @ new)"
      using "4.IH"(2) [OF False c r] .
    with s1 show ?thesis by auto
  qed
qed

lemma grows_length:
  assumes "\<exists>new. crawled st' = crawled st @ new"
  shows "length (crawled st) \<le> length (crawled st')"
    and "i < length (crawled st) \<Longrightarrow> crawled st' ! i = crawled st ! i"
  using assms by (auto simp: nth_append)

text \<open>A call of \<open>crawl\<close> takes its URL up unless the budget is used up.\<close>

lemma crawl_visits:
  assumes "crawl E n u st = Some st'" and lt: "length (crawled st) < MAX_PAGES"
  shows "u \<in> visited st'"
proof (cases n)
  case 0
  with assms show ?thesis by simp
next
  case (Suc m)
  show ?thesis
  proof (cases "u \<in> visited st")
    case True
    with assms Suc show ?thesis by auto
  next
    case nv: False
    show ?thesis
    proof (cases "fetch_page_data E u")
      case (Inl msg)
      show ?thesis using assms(1) Suc crawl_Suc_failure [OF nv lt Inl, of m] by auto
    next
      case (Inr pl)
      obtain p links where pl: "pl = (p, links)" by (cases pl)
      from Inr pl have f: "fetch_page_data E u = Inr (p, links)" by simp
      obtain internal where i: "filter_same_host (api E) (baseUrl E) links = Some internal"
        using fetch_page_data_Inr(4) [OF f] by blast
      let ?st2 = "st\<lparr>visited := insert u (visited st), crawled := crawled st @ [p]\<rparr>"
      have "follow E m (take (MAX_PAGES - Suc (length (crawled st))) internal) ?st2 = Some st'"
        using assms(1) Suc crawl_Suc_success [OF nv lt f i, of m] by simp
      then have "visited ?st2 \<subseteq> visited st'"
        using crawl_follow_grows(2) by blast
      then show ?thesis by auto
    qed
  qed
qed

lemma crawl_attempted:
  assumes "crawl E n u st = Some st'"
  shows "u \<in> visited st' \<or> MAX_PAGES \<le> length (crawled st')"
proof (cases "length (crawled st) < MAX_PAGES")
  case True
  then show ?thesis using crawl_visits [OF assms] by simp
next
  case False
  then have "length (crawled st) \<le> length (crawled st')"
    using grows_length(1) crawl_follow_grows(1) [OF assms] by blast
  with False show ?thesis by simp
qed

text \<open>The loop takes up every link of its list unless the budget is used up.\<close>

lemma follow_attempted:
  "follow E n links st = Some st' \<Longrightarrow>
     set links \<subseteq> visited st' \<or> MAX_PAGES \<le> length (crawled st')"
proof (induction links arbitrary: st)
  case Nil
  then show ?case by simp
next
  case (Cons link links)
  show ?case
  proof (cases "link \<in> visited st")
    case True
    then have r: "follow E n links st = Some st'" using Cons.prems by (cases n) simp_all
    have "link \<in> visited st'" using True crawl_follow_grows(2) [OF r] by blast
    then show ?thesis using Cons.IH [OF r] by auto
  next
    case False
    then obtain st1 where c: "crawl E n link st = Some st1" and r: "follow E n links st1 = Some st'"
      using Cons.prems by (cases n) (auto split: option.splits)
    have g: "visited st1 \<subseteq> visited st'" "length (crawled st1) \<le> length (crawled st')"
      using crawl_follow_grows(2) [OF r] by auto
    have "link \<in> visited st' \<or> MAX_PAGES \<le> length (crawled st')"
      using crawl_attempted [OF c] g by auto
    then show ?thesis using Cons.IH [OF r] by auto
  qed
qed

lemma links_followed_at_mono:
  assumes "links_followed_at E st i p" and "visited st \<subseteq> visited st'"
    and "length (crawled st) \<le> length (crawled st')"
  shows "links_followed_at E st' i p"
  using assms
  by (fastforce simp: links_followed_at_def split: sum.splits option.splits prod.splits)

lemma crawl_follow_links:
  "crawl E n u st = Some st' \<Longrightarrow> length (crawled st) \<le> i \<Longrightarrow> i < length (crawled st') \<Longrightarrow>
     links_followed_at E st' i (crawled st' ! i)"
  "follow E n links st = Some st' \<Longrightarrow> length (crawled st) \<le> i \<Longrightarrow> i < length (crawled st') \<Longrightarrow>
     links_followed_at E st' i (crawled st' ! i)"
proof (induction E n u st and E n links st arbitrary: st' i and st' i rule: crawl_follow.induct)
  case (1 E u st)
  then show ?case by simp
next
  case (2 E n u st)
  show ?case
  proof (cases "u \<in> visited st \<or> MAX_PAGES \<le> length (crawled st)")
    case True
    with "2.prems" show ?thesis by auto
  next
    case False
    then have nv: "u \<notin> visited st" and lt: "length (crawled st) < MAX_PAGES" by auto
    show ?thesis
    proof (cases "fetch_page_data E u")
      case (Inl msg)
      have st': "st' = st\<lparr>visited := insert u (visited st), crawled := crawled st @ [error_page u msg]\<rparr>"
        using "2.prems"(1) crawl_Suc_failure [OF nv lt Inl] by simp
      then have "i = length (crawled st)" using "2.prems"(2,3) by simp
      then have "crawled st' ! i = error_page u msg" using st' by simp
      moreover have "url (error_page u msg) = u" by (simp add: error_page_def)
      ultimately show ?thesis using Inl by (simp add: links_followed_at_def)
    next
      case (Inr pl)
      obtain p links where pl: "pl = (p, links)" by (cases pl)
      from Inr pl have f: "fetch_page_data E u = Inr (p, links)" by simp
      obtain internal where int: "filter_same_host (api E) (baseUrl E) links = Some internal"
        using fetch_page_data_Inr(4) [OF f] by blast
      let ?st1 = "st\<lparr>visited := insert u (visited st)\<rparr>"
      let ?st2 = "?st1\<lparr>crawled := crawled ?st1 @ [p]\<rparr>"
      have run: "follow E n (take (MAX_PAGES - length (crawled ?st2)) internal) ?st2 = Some st'"
        using "2.prems"(1) crawl_Suc_success [OF nv lt f int] by simp
      show ?thesis
      proof (cases "i = length (crawled st)")
        case True
        obtain new where new: "crawled st' = crawled ?st2 @ new"
          using crawl_follow_grows(2) [OF run] by blast
        have p: "crawled st' ! i = p" using new True by (simp add: nth_append)
        have "set (take (MAX_PAGES - Suc i) internal) \<subseteq> visited st' \<or>
              MAX_PAGES \<le> length (crawled st')"
          using follow_attempted [OF run] True by simp
        then show ?thesis
          using f int fetch_page_data_Inr(1) [OF f] by (simp add: p links_followed_at_def)
      next
        case False
        then have "length (crawled ?st2) \<le> i" using "2.prems"(2) by simp
        then show ?thesis
          using "2.IH" [OF \<open>\<not> (u \<in> visited st \<or> MAX_PAGES \<le> length (crawled st))\<close>
              refl Inr pl [symmetric] refl int run _ "2.prems"(3)] by blast
      qed
    qed
  qed
next
  case (3 E n st)
  then show ?case by simp
next
  case (4 E n link links st)
  show ?case
  proof (cases "link \<in> visited st")
    case True
    then have "follow E n links st = Some st'" using "4.prems"(1) by simp
    then show ?thesis using "4.IH"(3) True "4.prems"(2,3) by blast
  next
    case False
    then obtain st1 where c: "crawl E n link st = Some st1" and r: "follow E n links st1 = Some st'"
      using "4.prems"(1) by (auto split: option.splits)
    show ?thesis
    proof (cases "i < length (crawled st1)")
      case True
      have at1: "links_followed_at E st1 i (crawled st1 ! i)"
        using "4.IH"(1) [OF False c "4.prems"(2) True] .
      have g: "visited st1 \<subseteq> visited st'" "\<exists>new. crawled st' = crawled st1 @ new"
        using crawl_follow_grows(2) [OF r] by auto
      have "links_followed_at E st' i (crawled st1 ! i)"
        using links_followed_at_mono [OF at1 g(1) grows_length(1) [OF g(2)]] .
      then show ?thesis using grows_length(2) [OF g(2) True] by simp
    next
      case False
      then have "length (crawled st1) \<le> i" by simp
      then show ?thesis using "4.IH"(2) [OF \<open>link \<notin> visited st\<close> c r _ "4.prems"(3)] by blast
    qed
  qed
qed

lemma crawl_follow_recorded:
  "crawl E n u st = Some st' \<Longrightarrow> visited st = url ` set (crawled st) \<Longrightarrow>
     visited st' = url ` set (crawled st')"
  "follow E n links st = Some st' \<Longrightarrow> visited st = url ` set (crawled st) \<Longrightarrow>
     visited st' = url ` set (crawled st')"
proof (induction E n u st and E n links st arbitrary: st' and st' rule: crawl_follow.induct)
  case (1 E u st)
  then show ?case by simp
next
  case (2 E n u st)
  show ?case
  proof (cases "u \<in> visited st \<or> MAX_PAGES \<le> length (crawled st)")
    case True
    with "2.prems" show ?thesis by auto
  next
    case False
    then have nv: "u \<notin> visited st" and lt: "length (crawled st) < MAX_PAGES" by auto
    show ?thesis
    proof (cases "fetch_page_data E u")
      case (Inl msg)
      have "st' = st\<lparr>visited := insert u (visited st), crawled := crawled st @ [error_page u msg]\<rparr>"
        using "2.prems"(1) crawl_Suc_failure [OF nv lt Inl] by simp
      moreover have "url (error_page u msg) = u" by (simp add: error_page_def)
      ultimately show ?thesis using "2.prems"(2) by auto
    next
      case (Inr pl)
      obtain p links where pl: "pl = (p, links)" by (cases pl)
      from Inr pl have f: "fetch_page_data E u = Inr (p, links)" by simp
      obtain internal where i: "filter_same_host (api E) (baseUrl E) links = Some internal"
        using fetch_page_data_Inr(4) [OF f] by blast
      let ?st1 = "st\<lparr>visited := insert u (visited st)\<rparr>"
      let ?st2 = "?st1\<lparr>crawled := crawled ?st1 @ [p]\<rparr>"
      have rec2: "visited ?st2 = url ` set (crawled ?st2)"
        using "2.prems"(2) fetch_page_data_Inr(1) [OF f] by auto
      have run: "follow E n (take (MAX_PAGES - length (crawled ?st2)) internal) ?st2 = Some st'"
        using "2.prems"(1) crawl_Suc_success [OF nv lt f i] by simp
      show ?thesis
        using "2.IH" [OF False refl Inr pl [symmetric] refl i run rec2] .
    qed
  qed
next
  case (3 E n st)
  then show ?case by simp
next
  case (4 E n link links st)
  show ?case
  proof (cases "link \<in> visited st")
    case True
    then have "follow E n links st = Some st'" using "4.prems"(1) by simp
    then show ?thesis using "4.IH"(3) True "4.prems"(2) by blast
  next
    case False
    then obtain st1 where c: "crawl E n link st = Some st1" and r: "follow E n links st1 = Some st'"
      using "4.prems"(1) by (auto split: option.splits)
    show ?thesis
      using "4.IH"(2) [OF False c r "4.IH"(1) [OF False c "4.prems"(2)]] .
  qed
qed

lemma crawl_site_links_followed:
  assumes "crawl_site E seed = Some st"
  shows "links_followed E st"
proof -
  have c: "crawl E (Suc MAX_PAGES) seed \<lparr>visited = {}, crawled = []\<rparr> = Some st"
    using assms unfolding crawl_site_def .
  show ?thesis
    unfolding links_followed_def
  proof
    fix i assume "i \<in> {0..<length (crawled st)}"
    then have "i < length (crawled st)" by simp
    then show "links_followed_at E st i (crawled st ! i)"
      using crawl_follow_links(1) [OF c, of i] by simp
  qed
qed

text \<open>
  C7. Every Page Record of a crawl has \<open>status_code = 0\<close> exactly when it has the field
  \<open>error\<close>. The crawl takes the seed up, and every URL it takes up has its record; a
  URL whose fetch fails is recorded with status 0 and the message of the error; and the
  traversal goes on: behind every page of the list the links its loop was given have
  all been taken up, unless the budget is used up. A response of the web carries an
  HTTP status, which is not 0.
\<close>

theorem crawl_site_status_error:
  assumes "http_statuses (web E)"
  shows "\<exists>st. crawl_site E seed = Some st \<and>
              list_all status_error_inv (crawled st) \<and>
              seed \<in> visited st \<and> visited st = url ` set (crawled st) \<and>
              (\<forall>u msg. u \<in> visited st \<longrightarrow> web E u = Inl msg \<longrightarrow>
                 error_page u msg \<in> set (crawled st)) \<and>
              list_all (failure_recorded E) (crawled st) \<and>
              links_followed E st"
proof -
  obtain st where s: "crawl_site E seed = Some st"
    using crawl_site_total by blast
  then have c: "crawl E (Suc MAX_PAGES) seed \<lparr>visited = {}, crawled = []\<rparr> = Some st"
    unfolding crawl_site_def .
  have prod: "list_all (produced_by E) (crawled st)"
    by (rule crawl_follow_produced(1) [OF c]) simp
  have inv: "list_all status_error_inv (crawled st)"
    using prod produced_by_status_error [OF assms] by (auto simp: list_all_iff)
  have seed: "seed \<in> visited st"
    by (rule crawl_visits [OF c]) (simp add: MAX_PAGES_def)
  have rec: "visited st = url ` set (crawled st)"
    by (rule crawl_follow_recorded(1) [OF c]) simp
  have fail: "\<forall>u msg. u \<in> visited st \<longrightarrow> web E u = Inl msg \<longrightarrow>
                error_page u msg \<in> set (crawled st)"
  proof (intro allI impI)
    fix u msg assume "u \<in> visited st" and w: "web E u = Inl msg"
    then obtain p where p: "p \<in> set (crawled st)" "url p = u" using rec by auto
    then have "failure_recorded E p"
      using prod produced_by_failure_recorded by (auto simp: list_all_iff)
    then have "p = error_page u msg" using w p(2) by (simp add: failure_recorded_def)
    then show "error_page u msg \<in> set (crawled st)" using p(1) by simp
  qed
  have failr: "list_all (failure_recorded E) (crawled st)"
    using prod produced_by_failure_recorded by (auto simp: list_all_iff)
  show ?thesis
    using s inv seed rec fail failr crawl_site_links_followed [OF s] by blast
qed

theorem crawl_site_status_error_witness:
  "http_statuses (web failing_link_env) \<and>
   (\<exists>st. crawl_site failing_link_env ''https://shop.example/'' = Some st \<and>
         list_all status_error_inv (crawled st) \<and>
         ''https://shop.example/'' \<in> visited st \<and> visited st = url ` set (crawled st) \<and>
         (\<forall>u msg. u \<in> visited st \<longrightarrow> web failing_link_env u = Inl msg \<longrightarrow>
            error_page u msg \<in> set (crawled st)) \<and>
         list_all (failure_recorded failing_link_env) (crawled st) \<and>
         links_followed failing_link_env st) \<and>
   map_option (\<lambda>st. map (\<lambda>p. (url p, status_code p, error p)) (crawled st))
     (crawl_site failing_link_env ''https://shop.example/'') =
     Some [(''https://shop.example/'', 200, None),
           (''https://shop.example/a'', 0, Some ''fetch failed''),
           (''https://shop.example/b'', 200, None)]"
proof -
  have h: "http_statuses (web failing_link_env)"
    by (simp add: http_statuses_def failing_link_env_def failing_link_web_def)
  have e: "map_option (\<lambda>st. map (\<lambda>p. (url p, status_code p, error p)) (crawled st))
     (crawl_site failing_link_env ''https://shop.example/'') =
     Some [(''https://shop.example/'', 200, None),
           (''https://shop.example/a'', 0, Some ''fetch failed''),
           (''https://shop.example/b'', 200, None)]"
    by code_simp
  show ?thesis
    using crawl_site_status_error [OF h, of "''https://shop.example/''"] h e by blast
qed

text \<open>
  C6. The claim: the final list of pages has at most \<open>maxPages\<close> entries, and every URL
  in it is unique, no URL being fetched or recorded twice (no duplicate fetch of the
  same normalized URL). The budget holds, and so does uniqueness of the URL strings.
  But the visited set holds the seed as it was typed and the links as \<open>resolvedUrl.href\<close>
  gives them. The code on a seed without the final slash, whose page links to \<open>/\<close>:
  the root is fetched and recorded twice, as \<open>https://site.example\<close> and as
  \<open>https://site.example/\<close>, two spellings that \<open>new URL\<close> gives the same \<open>href\<close>.
\<close>

theorem crawl_site_root_twice:
  "map_option (\<lambda>st. map (\<lambda>p. (url p, status_code p, map_option href (simple_url_new (url p))))
                 (crawled st))
     (crawl_site slashless_env ''https://site.example'') =
     Some [(''https://site.example'', 200, Some ''https://site.example/''),
           (''https://site.example/'', 200, Some ''https://site.example/'')]"
  by code_simp

section \<open>Link counts\<close>

lemma set_map_filter_iff: "y \<in> set (List.map_filter f xs) \<longleftrightarrow> (\<exists>x \<in> set xs. f x = Some y)"
  by (induction xs) (auto split: option.splits)

lemma set_dedupe: "set (dedupe xs) = set xs"
  by (induction xs rule: dedupe.induct) auto

lemma distinct_dedupe: "distinct (dedupe xs)"
  by (induction xs rule: dedupe.induct) (auto simp: set_dedupe)

text \<open>
  \<open>extractLinks\<close> keeps a link only when it resolves to the host of the page it stands
  on: a link to another host never reaches \<open>allLinks\<close>, whatever the \<open>URL\<close> class does.
\<close>

lemma link_of_cross_host:
  "url_new_base urls h base = Some r \<Longrightarrow> hostname r \<noteq> hostname base \<Longrightarrow> link_of urls base h = None"
  by (simp add: link_of_def)

lemma extractLinks_same_host:
  assumes "l \<in> set (extractLinks urls html base)"
  shows "\<exists>h r. h \<in> set (scan_hrefs html) \<and> url_new_base urls h base = Some r \<and>
               hostname r = hostname base \<and> l = href r"
proof -
  from assms obtain h where h: "h \<in> set (scan_hrefs html)" and l: "link_of urls base h = Some l"
    by (auto simp: extractLinks_def set_dedupe set_map_filter_iff)
  from l show ?thesis
    using h by (auto simp: link_of_def split: if_splits option.splits)
qed

lemma filter_same_host_all:
  assumes "\<forall>l \<in> set ls. \<exists>r. url_new urls l = Some r \<and> hostname r = hostname b"
  shows "filter_same_host urls b ls = Some ls"
  using assms by (induction ls) auto

text \<open>
  On a page of the seed's host every link of \<open>allLinks\<close> passes the second filter as
  well, so \<open>external_links\<close> is 0 whatever the page holds. Of the \<open>URL\<close> class this
  uses that parsing the \<open>href\<close> of a URL object gives its \<open>hostname\<close> again.
\<close>

lemma external_links_zero:
  assumes reparse: "\<And>h b r. url_new_base (api E) h b = Some r \<Longrightarrow>
                      \<exists>r'. url_new (api E) (href r) = Some r' \<and> hostname r' = hostname r"
    and base: "url_new (api E) u = Some b" "hostname b = hostname (baseUrl E)"
    and f: "fetch_page_data E u = Inr (p, links)"
  shows "external_links p = Some 0"
proof -
  obtain r where w: "web E u = Inr r"
    using fetch_page_data_Inr(3) [OF f] by blast
  have links: "links = extractLinks (api E) (body r) b"
    using f w base(1) by (auto simp: fetch_page_data_def Let_def split: option.splits)
  have "\<forall>l \<in> set links. \<exists>r'. url_new (api E) l = Some r' \<and> hostname r' = hostname (baseUrl E)"
  proof
    fix l assume "l \<in> set links"
    then obtain h x where "url_new_base (api E) h b = Some x" "hostname x = hostname b" "l = href x"
      using extractLinks_same_host unfolding links by blast
    then show "\<exists>r'. url_new (api E) l = Some r' \<and> hostname r' = hostname (baseUrl E)"
      using reparse [of h b x] base(2) by auto
  qed
  then have "filter_same_host (api E) (baseUrl E) links = Some links"
    by (rule filter_same_host_all)
  then show ?thesis
    using f w base(1) links by (auto simp: fetch_page_data_def Let_def split: option.splits)
qed

text \<open>
  C1. The claim: the link counts of a page come from the deduplicated links of its own
  HTML, \<open>internal_links\<close> the number of distinct links to the same host and
  \<open>external_links\<close> the number of distinct links to other hosts. The code on the
  example site, whose home page links to \<open>/about\<close> twice and to \<open>other.example\<close>
  once: \<open>internal_links\<close> is 1 and \<open>external_links\<close> is 0, because \<open>allLinks\<close> comes
  from \<open>extractLinks\<close>, which has dropped the link to the other host.
\<close>

theorem crawl_site_external_link:
  "map_option crawled (crawl_site example_env ''https://site.example/'') =
     Some [\<lparr>url = ''https://site.example/'', status_code = 200, title = Some [],
             meta_description = Some [], h1 = Some [], h2 = Some [], h3 = Some [],
             structured_data = Some [], word_count = Some 0, images = Some [],
             internal_links = Some 1, external_links = Some 0, error = None\<rparr>,
           \<lparr>url = ''https://site.example/about'', status_code = 0, title = None,
             meta_description = None, h1 = None, h2 = None, h3 = None,
             structured_data = None, word_count = None, images = None,
             internal_links = None, external_links = None, error = Some ''fetch failed''\<rparr>]"
  by code_simp

section \<open>JSON-LD blocks\<close>

lemma jsonld_entry_type: "jsonld_entry parse b = Some e \<Longrightarrow> sd_type e = ''json-ld''"
  by (auto simp: jsonld_entry_def split: option.splits)

lemma json_ld_entries_map_filter:
  "json_ld_entries (List.map_filter (jsonld_entry parse) bs) = List.map_filter (jsonld_entry parse) bs"
  unfolding json_ld_entries_def
  by (rule filter_True) (auto simp: set_map_filter_iff dest: jsonld_entry_type)

lemma json_ld_entries_tags: "ty \<noteq> ''json-ld'' \<Longrightarrow> json_ld_entries (tags_entry ty k d tags) = []"
  by (simp add: json_ld_entries_def tags_entry_def)

lemma json_ld_entries_microdata: "json_ld_entries (map microdata_entry ms) = []"
  by (induction ms) (simp_all add: json_ld_entries_def microdata_entry_def)

lemma json_ld_entries_append: "json_ld_entries (xs @ ys) = json_ld_entries xs @ json_ld_entries ys"
  by (simp add: json_ld_entries_def)

text \<open>The entries of type \<open>json-ld\<close> are those of the JSON-LD loop, in the order of the blocks.\<close>

lemma json_ld_entries_extract:
  "json_ld_entries (extractStructuredData parse scans html) =
     List.map_filter (jsonld_entry parse) (scan_jsonld html)"
  by (simp add: extractStructuredData_def json_ld_entries_append json_ld_entries_map_filter
      json_ld_entries_tags json_ld_entries_microdata)

text \<open>
  Apart from the JSON text \<open>null\<close> the isolation holds: of two blocks, one that parses
  to a value other than \<open>null\<close> and one that does not parse, in either order, exactly
  the first gives an entry.
\<close>

lemma jsonld_entry_valid:
  "parse b = Some v \<Longrightarrow> v \<noteq> JNull \<Longrightarrow> \<exists>e. jsonld_entry parse b = Some e \<and> data e = v"
  by (cases v) (simp_all add: jsonld_entry_def at_type_def)

lemma jsonld_entry_malformed: "parse b = None \<Longrightarrow> jsonld_entry parse b = None"
  by (simp add: jsonld_entry_def)

lemma jsonld_entry_null: "parse b = Some JNull \<Longrightarrow> jsonld_entry parse b = None"
  by (simp add: jsonld_entry_def at_type_def)

lemma jsonld_one_valid_one_malformed:
  assumes "scan_jsonld html = [a, b] \<or> scan_jsonld html = [b, a]"
    and "parse a = Some v" and "v \<noteq> JNull" and "parse b = None"
  shows "\<exists>e. json_ld_entries (extractStructuredData parse scans html) = [e] \<and> data e = v"
proof -
  obtain e where e: "jsonld_entry parse a = Some e" "data e = v"
    using jsonld_entry_valid [of parse a v, OF assms(2,3)] by blast
  have "List.map_filter (jsonld_entry parse) (scan_jsonld html) = [e]"
    using assms(1) e(1) jsonld_entry_malformed [of parse b, OF assms(4)]
    by auto
  then show ?thesis
    using e(2) by (simp add: json_ld_entries_extract)
qed

lemma scan_null_and_malformed:
  "scan_jsonld null_and_malformed = [''null'', ''{'' @ quoted ''@type'' @ '': '']"
  by code_simp

text \<open>
  C10. The claim: of two JSON-LD blocks on a page, one holding valid JSON and one
  malformed, exactly one \<open>json-ld\<close> entry results. The code on a page whose valid
  block is the JSON text \<open>null\<close>: \<open>parsed['@type']\<close> throws inside the \<open>try\<close>, the
  \<open>catch\<close> meant for invalid JSON skips the block, and no \<open>json-ld\<close> entry results,
  while the loop of \<open>extractMeta\<close> keeps the value.
\<close>

theorem extractStructuredData_null_block:
  assumes "parse ''null'' = Some JNull" and "parse (''{'' @ quoted ''@type'' @ '': '') = None"
  shows "json_ld_entries (extractStructuredData parse scans null_and_malformed) = [] \<and>
         extractMeta_structured_data parse null_and_malformed = [JNull]"
  using jsonld_entry_null [of parse "''null''", OF assms(1)]
    jsonld_entry_malformed [of parse "''{'' @ quoted ''@type'' @ '': ''", OF assms(2)] assms
  by (simp add: json_ld_entries_extract extractMeta_structured_data_def scan_null_and_malformed
      del: append.simps)

theorem extractStructuredData_null_block_witness:
  "example_parse ''null'' = Some JNull \<and>
   example_parse (''{'' @ quoted ''@type'' @ '': '') = None \<and>
   json_ld_entries (extractStructuredData example_parse no_tags null_and_malformed) = [] \<and>
   extractMeta_structured_data example_parse null_and_malformed = [JNull]"
proof -
  have a: "example_parse ''null'' = Some JNull" by (simp add: example_parse_def)
  have b: "example_parse (''{'' @ quoted ''@type'' @ '': '') = None"
    by (simp add: example_parse_def quoted_def)
  show ?thesis
    using extractStructuredData_null_block [OF a b, of no_tags] a b by simp
qed

end
